theory Spec2Isabelle
  imports Main "HOL-Library.Sublist" "HOL-Library.Multiset"
begin

section \<open>Strings of the host language\<close>

text \<open>
  A JavaScript string is a sequence of 16-bit code units; a code unit is written here
  as its high and its low byte, so \<^verbatim>\<open>U+0130\<close> is \<open>Unit (CHR 0x01) (CHR 0x30)\<close>. The
  search of \<^verbatim>\<open>mcp-backend/server.js\<close> uses a handful of string methods; those that only
  compare and cut code units are defined here. \<^verbatim>\<open>toLowerCase\<close> follows the Unicode case
  mappings, which may look at the neighbours of a letter and may change the length of
  the text; it is not defined here but taken from the environment (below).
  \<open>js\<close> writes an ASCII or Latin-1 literal as such a string.
\<close>

datatype code_unit = Unit char char

type_synonym jsstring = "code_unit list"

definition ascii :: "char \<Rightarrow> code_unit" where
  "ascii c = Unit (CHR 0x00) c"

definition js :: "string \<Rightarrow> jsstring" where
  "js s = map ascii s"

text \<open>\<^verbatim>\<open>s.includes(q)\<close>: \<^verbatim>\<open>q\<close> occurs in \<^verbatim>\<open>s\<close> as a contiguous run.\<close>

fun includes_s :: "jsstring \<Rightarrow> jsstring \<Rightarrow> bool" where
  "includes_s [] q = (q = [])"
| "includes_s (c # cs) q = (prefix q (c # cs) \<or> includes_s cs q)"

definition startsWith :: "jsstring \<Rightarrow> jsstring \<Rightarrow> bool" where
  "startsWith s p = prefix p s"

text \<open>\<^verbatim>\<open>s.split('\n')\<close>: the pieces between line feeds; the empty string gives one empty piece.\<close>

fun split_lines :: "jsstring \<Rightarrow> jsstring list" where
  "split_lines [] = [[]]"
| "split_lines (c # cs) =
     (if c = ascii (CHR 0x0A) then [] # split_lines cs
      else (case split_lines cs of [] \<Rightarrow> [[c]] | l # ls \<Rightarrow> (c # l) # ls))"

text \<open>\<^verbatim>\<open>s.trim()\<close>: white space and line terminators leave both ends: TAB, LF, VT, FF,
  CR, SP, NBSP, \<^verbatim>\<open>U+1680\<close>, \<^verbatim>\<open>U+2000..U+200A\<close>, \<^verbatim>\<open>U+2028\<close>, \<^verbatim>\<open>U+2029\<close>, \<^verbatim>\<open>U+202F\<close>,
  \<^verbatim>\<open>U+205F\<close>, \<^verbatim>\<open>U+3000\<close> and \<^verbatim>\<open>U+FEFF\<close>.\<close>

fun isWhiteSpace :: "code_unit \<Rightarrow> bool" where
  "isWhiteSpace (Unit h l) =
     ((h = CHR 0x00 \<and> l \<in> {CHR 0x09, CHR 0x0A, CHR 0x0B, CHR 0x0C, CHR 0x0D, CHR 0x20, CHR 0xA0})
      \<or> (h = CHR 0x16 \<and> l = CHR 0x80)
      \<or> (h = CHR 0x20 \<and> ((of_char l :: nat) \<le> 10 \<or> l \<in> {CHR 0x28, CHR 0x29, CHR 0x2F, CHR 0x5F}))
      \<or> (h = CHR 0x30 \<and> l = CHR 0x00)
      \<or> (h = CHR 0xFE \<and> l = CHR 0xFF))"

definition trim :: "jsstring \<Rightarrow> jsstring" where
  "trim s = rev (dropWhile isWhiteSpace (rev (dropWhile isWhiteSpace s)))"

text \<open>
  \<^verbatim>\<open>path.extname(name)\<close> for a directory entry's name (which holds no separator): the
  text from the last dot on; empty when there is no dot, when the only dot leads the
  name, and for the name \<^verbatim>\<open>..\<close>.
\<close>

definition extname :: "jsstring \<Rightarrow> jsstring" where
  "extname nm =
     (let dot = ascii (CHR ''.'');
          tl = rev (takeWhile (\<lambda>c. c \<noteq> dot) (rev nm))
      in if dot \<notin> set nm \<or> Suc (length tl) = length nm \<or> nm = js ''..'' then []
         else dot # tl)"

section \<open>The environment: the host, path functions and the file system\<close>

datatype io_error = NotFound | PermissionDenied | DecodeError | OtherError | RangeError

datatype encoding = Utf8 | Latin1

text \<open>A \<^verbatim>\<open>Dirent\<close> of \<^verbatim>\<open>fs.readdir(dir, {withFileTypes: true})\<close>.\<close>

record dirent =
  name :: jsstring
  isDirectory :: bool
  isFile :: bool

record stats =
  st_size :: nat
  st_mtime :: nat

text \<open>
  What the search takes from outside the repository. The search only reads, so the
  environment is a value that no operation changes. An operation that throws
  returns \<open>Inl\<close> of the error. \<open>str_toLowerCase\<close> is \<^verbatim>\<open>String.prototype.toLowerCase\<close>;
  \<open>max_call_args\<close> is the largest number of arguments the engine passes to one call:
  a spread of a longer array into a call throws a \<^verbatim>\<open>RangeError\<close>.
\<close>

record env =
  str_toLowerCase :: "jsstring \<Rightarrow> jsstring"
  max_call_args :: int
  path_resolve :: "jsstring \<Rightarrow> io_error + jsstring"
  path_join :: "jsstring \<Rightarrow> jsstring \<Rightarrow> jsstring"
  fs_readdir :: "jsstring \<Rightarrow> io_error + dirent list"
  fs_readFile :: "jsstring \<Rightarrow> encoding \<Rightarrow> io_error + jsstring"
  fs_stat :: "jsstring \<Rightarrow> io_error + stats"

section \<open>readFile\<close>

record metadata =
  md_size :: nat
  md_modified :: nat
  md_path :: jsstring
  md_encoding :: jsstring

datatype read_result = ReadOk jsstring metadata | ReadFailed io_error

text \<open>
  \<^verbatim>\<open>readFile(filePath)\<close>: one \<^verbatim>\<open>try\<close> around everything; inside it the read as
  \<^verbatim>\<open>'utf-8'\<close>, whose failure is caught by a read as \<^verbatim>\<open>'latin1'\<close>, then \<^verbatim>\<open>fs.stat\<close>.
\<close>

definition readFile :: "env \<Rightarrow> jsstring \<Rightarrow> read_result" where
  "readFile e filePath =
     (case path_resolve e filePath of
        Inl err \<Rightarrow> ReadFailed err
      | Inr resolvedPath \<Rightarrow>
          (case (case fs_readFile e resolvedPath Utf8 of
                   Inr c \<Rightarrow> Inr c
                 | Inl encodingError \<Rightarrow> fs_readFile e resolvedPath Latin1) of
             Inl err \<Rightarrow> ReadFailed err
           | Inr content \<Rightarrow>
               (case fs_stat e resolvedPath of
                  Inl err \<Rightarrow> ReadFailed err
                | Inr st \<Rightarrow>
                    ReadOk content
                      \<lparr>md_size = st_size st, md_modified = st_mtime st,
                       md_path = resolvedPath, md_encoding = js ''auto-detected''\<rparr>)))"

section \<open>getContentPreview\<close>

record preview_line =
  line :: jsstring
  number :: nat

text \<open>\<^verbatim>\<open>getContentPreview(content, query)\<close>, with the host's \<^verbatim>\<open>toLowerCase\<close>.\<close>

definition getContentPreview :: "env \<Rightarrow> jsstring \<Rightarrow> jsstring \<Rightarrow> preview_line list" where
  "getContentPreview e content query =
     (let lines = split_lines content
      in take 3
           (filter (\<lambda>pl. includes_s (str_toLowerCase e (line pl)) (str_toLowerCase e query))
              (map (\<lambda>(l, index). \<lparr>line = trim l, number = index + 1\<rparr>)
                 (zip lines [0..<length lines]))))"

text \<open>The pair made of line \<open>i\<close> (counted from 0): its trimmed text and its number \<open>i + 1\<close>.\<close>

definition numberedLine :: "jsstring list \<Rightarrow> nat \<Rightarrow> preview_line" where
  "numberedLine ls i = \<lparr>line = trim (ls ! i), number = i + 1\<rparr>"

section \<open>The recursive walker\<close>

record match =
  file_m :: jsstring
  type_m :: jsstring
  size_m :: nat
  modified_m :: nat
  preview_m :: "preview_line list"

definition excludes :: "jsstring list" where
  "excludes = [js ''node_modules'', js ''vendor'', js ''venv'', js ''__pycache__'']"

text \<open>
  \<^verbatim>\<open>searchRecursive(dir, query, fileTypes, results, currentDepth, maxDepth)\<close>. The
  array \<^verbatim>\<open>results\<close> that the source pushes onto is passed in and returned. The loop
  over the entries is a fold in enumeration order. A failing \<^verbatim>\<open>readdir\<close> leaves the
  results as they are; nothing else in the loop can throw past the inner \<^verbatim>\<open>try\<close>.
\<close>

function searchRecursive ::
  "env \<Rightarrow> jsstring \<Rightarrow> jsstring \<Rightarrow> jsstring list \<Rightarrow> match list \<Rightarrow> nat \<Rightarrow> nat \<Rightarrow> match list"
where
  "searchRecursive e dir query fileTypes results currentDepth maxDepth =
     (if currentDepth > maxDepth then results
      else
        (case fs_readdir e dir of
           Inl err \<Rightarrow> results
         | Inr items \<Rightarrow>
             fold
               (\<lambda>item results.
                  let itemPath = path_join e dir (name item)
                  in if startsWith (name item) (js ''.'') \<or> name item \<in> set excludes then results
                     else if isDirectory item then
                       searchRecursive e itemPath query fileTypes results
                         (currentDepth + 1) maxDepth
                     else if isFile item then
                       (let ext = str_toLowerCase e (extname (name item))
                        in if ext \<in> set fileTypes then
                             (case readFile e itemPath of
                                ReadOk content meta \<Rightarrow>
                                  if includes_s (str_toLowerCase e content) (str_toLowerCase e query)
                                  then results @
                                    [\<lparr>file_m = itemPath, type_m = ext, size_m = md_size meta,
                                      modified_m = md_modified meta,
                                      preview_m = getContentPreview e content query\<rparr>]
                                  else results
                              | ReadFailed err \<Rightarrow> results)
                           else results)
                     else results)
               items results))"
  by pat_completeness auto
termination
  by (relation "measure (\<lambda>(e, dir, query, fileTypes, results, currentDepth, maxDepth).
        Suc maxDepth - currentDepth)") auto

text \<open>The test of lines 328-329: a hidden name or one of the fixed exclusion names.\<close>

definition skipped :: "jsstring \<Rightarrow> bool" where
  "skipped nm = (startsWith nm (js ''.'') \<or> nm \<in> set excludes)"

text \<open>The body of the loop of \<^verbatim>\<open>searchRecursive\<close>, for one entry (lines 325-353).\<close>

definition visitItem ::
  "env \<Rightarrow> jsstring \<Rightarrow> jsstring \<Rightarrow> jsstring list \<Rightarrow> nat \<Rightarrow> nat \<Rightarrow> dirent \<Rightarrow> match list \<Rightarrow> match list"
where
  "visitItem e dir query fileTypes currentDepth maxDepth item results =
     (let itemPath = path_join e dir (name item)
      in if startsWith (name item) (js ''.'') \<or> name item \<in> set excludes then results
         else if isDirectory item then
           searchRecursive e itemPath query fileTypes results (currentDepth + 1) maxDepth
         else if isFile item then
           (let ext = str_toLowerCase e (extname (name item))
            in if ext \<in> set fileTypes then
                 (case readFile e itemPath of
                    ReadOk content meta \<Rightarrow>
                      if includes_s (str_toLowerCase e content) (str_toLowerCase e query)
                      then results @
                        [\<lparr>file_m = itemPath, type_m = ext, size_m = md_size meta,
                          modified_m = md_modified meta,
                          preview_m = getContentPreview e content query\<rparr>]
                      else results
                  | ReadFailed err \<Rightarrow> results)
               else results)
         else results)"

text \<open>
  Where the walk can get to. \<open>descends e dir ds\<close>: each name of \<open>ds\<close> in turn is a
  directory entry, not skipped, of the directory reached so far. \<open>lists_file e dir f\<close>:
  \<open>f\<close> is a file entry of \<open>dir\<close>, not skipped.
\<close>

fun descends :: "env \<Rightarrow> jsstring \<Rightarrow> jsstring list \<Rightarrow> bool" where
  "descends e dir [] = True"
| "descends e dir (n # ns) =
     ((case fs_readdir e dir of
         Inl err \<Rightarrow> False
       | Inr items \<Rightarrow> list_ex (\<lambda>item. name item = n \<and> isDirectory item) items)
      \<and> \<not> skipped n \<and> descends e (path_join e dir n) ns)"

definition lists_file :: "env \<Rightarrow> jsstring \<Rightarrow> jsstring \<Rightarrow> bool" where
  "lists_file e dir f =
     ((case fs_readdir e dir of
         Inl err \<Rightarrow> False
       | Inr items \<Rightarrow> list_ex (\<lambda>item. name item = f \<and> \<not> isDirectory item \<and> isFile item) items)
      \<and> \<not> skipped f)"

section \<open>searchInLocation and searchFilesAdvanced\<close>

definition searchInLocation :: "env \<Rightarrow> jsstring \<Rightarrow> jsstring \<Rightarrow> jsstring list \<Rightarrow> match list" where
  "searchInLocation e location query fileTypes =
     (case path_resolve e location of
        Inl err \<Rightarrow> []
      | Inr resolvedLocation \<Rightarrow> searchRecursive e resolvedLocation query fileTypes [] 0 3)"

text \<open>
  \<^verbatim>\<open>results.push(...locationResults)\<close> (line 284): the spread passes every element as one
  argument of the call, which throws before anything is pushed when there are more
  than the engine takes.
\<close>

definition pushSpread :: "env \<Rightarrow> match list \<Rightarrow> match list \<Rightarrow> io_error + match list" where
  "pushSpread e results locationResults =
     (if int (length locationResults) \<le> max_call_args e then Inr (results @ locationResults)
      else Inl RangeError)"

text \<open>The fields of the server object that the search reads.\<close>

record server =
  this_searchLocations :: "jsstring list"
  this_emailFileTypes :: "jsstring list"

record search_result =
  query :: jsstring
  searchLocations :: "jsstring list"
  totalResults :: nat
  results :: "match list"

datatype search_response = Success search_result | Failed jsstring

text \<open>
  \<^verbatim>\<open>searchFilesAdvanced(query, customLocations = null, customFileTypes = null)\<close>.
  \<open>None\<close> is \<^verbatim>\<open>null\<close>; an array, also an empty one, is truthy and is used as given.
  The \<^verbatim>\<open>try\<close> of lines 282-288 holds the call of \<^verbatim>\<open>searchInLocation\<close>, which returns a
  list on every path, and the push of that list, which may throw; the \<^verbatim>\<open>catch\<close> then
  goes on to the next location with the results as they were. Nothing else inside
  the outer \<^verbatim>\<open>try\<close> throws for string roots, so the response is always the successful
  one.
\<close>

definition searchFilesAdvanced ::
  "server \<Rightarrow> env \<Rightarrow> jsstring \<Rightarrow> jsstring list option \<Rightarrow> jsstring list option \<Rightarrow> search_response"
where
  "searchFilesAdvanced this e q customLocations customFileTypes =
     (let locs = (case customLocations of Some ls \<Rightarrow> ls | None \<Rightarrow> this_searchLocations this);
          fileTypes = (case customFileTypes of Some ts \<Rightarrow> ts | None \<Rightarrow> this_emailFileTypes this);
          found = fold (\<lambda>location acc.
                          case pushSpread e acc (searchInLocation e location q fileTypes) of
                            Inr acc' \<Rightarrow> acc'
                          | Inl locationError \<Rightarrow> acc)
                    locs []
      in Success \<lparr>query = q, searchLocations = locs, totalResults = length found,
                   results = take 50 found\<rparr>)"

text \<open>What a location adds to the results: its matches, or nothing when their push throws.\<close>

definition pushed :: "env \<Rightarrow> match list \<Rightarrow> match list" where
  "pushed e locationResults =
     (if int (length locationResults) \<le> max_call_args e then locationResults else [])"

text \<open>The matches accumulated over all roots in order, before the cut to 50.\<close>

definition allFound :: "env \<Rightarrow> jsstring \<Rightarrow> jsstring list \<Rightarrow> jsstring list \<Rightarrow> match list" where
  "allFound e q fileTypes locs =
     concat (map (\<lambda>location. pushed e (searchInLocation e location q fileTypes)) locs)"

text \<open>The roots and the extensions a call uses: the caller's, or the server's own for \<^verbatim>\<open>null\<close>.\<close>

definition usedLocations :: "server \<Rightarrow> jsstring list option \<Rightarrow> jsstring list" where
  "usedLocations this customLocations =
     (case customLocations of Some ls \<Rightarrow> ls | None \<Rightarrow> this_searchLocations this)"

definition usedFileTypes :: "server \<Rightarrow> jsstring list option \<Rightarrow> jsstring list" where
  "usedFileTypes this customFileTypes =
     (case customFileTypes of Some ts \<Rightarrow> ts | None \<Rightarrow> this_emailFileTypes this)"

definition results_of :: "search_response \<Rightarrow> match list" where
  "results_of resp = (case resp of Success r \<Rightarrow> results r | Failed msg \<Rightarrow> [])"

section \<open>executeTool\<close>

datatype platform = Darwin | Win32 | Linux

text \<open>The fields of \<^verbatim>\<open>args\<close> that the dispatch reads; \<open>None\<close> is \<^verbatim>\<open>undefined\<close>.\<close>

record tool_args =
  args_path :: "string option"
  args_query :: "string option"
  args_locations :: "string list option"
  args_fileTypes :: "string list option"
  args_contactName :: "string option"
  args_recipient :: "string option"
  args_context :: "string option"
  args_prompt :: "string option"

text \<open>What a branch of the \<^verbatim>\<open>switch\<close> does: the method it calls, or the error it throws.\<close>

datatype call =
    Call_readFile "string option"
  | Call_listDirectory "string option"
  | Call_searchFilesAdvanced "string option" "string list option" "string list option"
  | Call_getSystemInfo
  | Call_analyzeEmailPatternsAdvanced "string option"
  | Call_searchOutlookEmails "string option"
  | Call_generateAIEmail "string option" "string option" "string option"
  | Call_searchMacOSOutlook "string option"
  | Throw_UnknownTool string

text \<open>The \<^verbatim>\<open>case\<close> clauses of \<^verbatim>\<open>executeTool\<close> in source order (lines 207-233), each with
  its label and its body; every body returns, so none falls through.\<close>

definition executeTool_cases :: "(string \<times> (platform \<Rightarrow> tool_args \<Rightarrow> call)) list" where
  "executeTool_cases =
     [(''read_file'', \<lambda>p a. Call_readFile (args_path a)),
      (''list_directory'', \<lambda>p a. Call_listDirectory (args_path a)),
      (''search_files_advanced'',
         \<lambda>p a. Call_searchFilesAdvanced (args_query a) (args_locations a) (args_fileTypes a)),
      (''get_system_info'', \<lambda>p a. Call_getSystemInfo),
      (''analyze_email_patterns_advanced'',
         \<lambda>p a. Call_analyzeEmailPatternsAdvanced (args_contactName a)),
      (''search_outlook_emails'', \<lambda>p a. Call_searchOutlookEmails (args_contactName a)),
      (''generate_ai_email'',
         \<lambda>p a. Call_generateAIEmail (args_recipient a) (args_context a) (args_prompt a)),
      (''search_outlook_emails'',
         \<lambda>p a. if p = Darwin then Call_searchMacOSOutlook (args_contactName a)
                else Call_searchOutlookEmails (args_contactName a))]"

text \<open>A \<^verbatim>\<open>switch\<close> on a string enters the first clause whose label is strictly equal.\<close>

definition switch_on :: "string \<Rightarrow> (string \<times> 'b) list \<Rightarrow> (nat \<times> 'b) option" where
  "switch_on v cases =
     map_option (\<lambda>(i, lb). (i, snd lb)) (find (\<lambda>(i, lb). fst lb = v) (enumerate 0 cases))"

definition executeTool :: "platform \<Rightarrow> string \<Rightarrow> tool_args \<Rightarrow> call" where
  "executeTool p toolName a =
     (case switch_on toolName executeTool_cases of
        Some (i, body) \<Rightarrow> body p a
      | None \<Rightarrow> Throw_UnknownTool toolName)"

section \<open>Two enumerations of one tree\<close>



section \<open>Containment up to case, in the words of the claim\<close>

text \<open>
  The runs of a string are its contiguous pieces. In the words of the claim, the
  content contains the query case-insensitively when some run of the content and the
  query have the same lower-case form.
\<close>

definition runs :: "'a list \<Rightarrow> 'a list list" where
  "runs s = concat (map prefixes (suffixes s))"

definition containsIgnoringCase :: "env \<Rightarrow> jsstring \<Rightarrow> jsstring \<Rightarrow> bool" where
  "containsIgnoringCase e content q =
     list_ex (\<lambda>w. str_toLowerCase e w = str_toLowerCase e q) (runs content)"

section \<open>Concrete trees\<close>

text \<open>
  \<open>js_toLowerCase\<close> is what \<^verbatim>\<open>toLowerCase\<close> gives on text whose code units lie in the
  Latin-1 range or are \<^verbatim>\<open>U+0130\<close> (capital I with a dot above, which becomes \<^verbatim>\<open>i\<close> and the
  combining dot \<^verbatim>\<open>U+0307\<close>): the ASCII capitals and \<^verbatim>\<open>U+00C0..U+00DE\<close> without \<^verbatim>\<open>U+00D7\<close>
  move up by 32, and no such unit depends on its neighbours. Other code units are left
  as they are here; the trees below hold none.
\<close>

definition capital_I_dotted :: code_unit where
  "capital_I_dotted = Unit (CHR 0x01) (CHR 0x30)"

definition combining_dot :: code_unit where
  "combining_dot = Unit (CHR 0x03) (CHR 0x07)"

fun lowerUnit :: "code_unit \<Rightarrow> jsstring" where
  "lowerUnit (Unit h l) =
     (let n = (of_char l :: nat)
      in if h = CHR 0x01 \<and> l = CHR 0x30 then [ascii (CHR ''i''), combining_dot]
         else if h = CHR 0x00 \<and> ((65 \<le> n \<and> n \<le> 90) \<or> (192 \<le> n \<and> n \<le> 222 \<and> n \<noteq> 215))
         then [ascii (char_of (n + 32))]
         else [Unit h l])"

definition js_toLowerCase :: "jsstring \<Rightarrow> jsstring" where
  "js_toLowerCase s = concat (map lowerUnit s)"

text \<open>
  A small tree under \<^verbatim>\<open>/data\<close> with a hidden directory, an excluded directory, a chain
  of directories four levels deep, a file that only reads as latin1, a file that reads
  in neither encoding and an entry that is neither a file nor a directory; a directory
  \<^verbatim>\<open>/uni\<close> with a file whose content is the one letter \<^verbatim>\<open>U+0130\<close>; a flat directory
  \<^verbatim>\<open>/big\<close> of 51 files that all match; and a flat
  directory \<^verbatim>\<open>/wide\<close> of \<open>n\<close> files that all match. Paths are joined with a slash, and a
  call takes at most 125000 arguments.
\<close>

definition posix_join :: "jsstring \<Rightarrow> jsstring \<Rightarrow> jsstring" where
  "posix_join dir nm = dir @ js ''/'' @ nm"

definition lookup :: "(jsstring \<times> 'a) list \<Rightarrow> jsstring \<Rightarrow> io_error + 'a" where
  "lookup tbl p = (case map_of tbl p of None \<Rightarrow> Inl NotFound | Some v \<Rightarrow> Inr v)"

definition dirE :: "jsstring \<Rightarrow> dirent" where
  "dirE nm = \<lparr>name = nm, isDirectory = True, isFile = False\<rparr>"

definition fileE :: "jsstring \<Rightarrow> dirent" where
  "fileE nm = \<lparr>name = nm, isDirectory = False, isFile = True\<rparr>"

definition demo_dirs :: "(jsstring \<times> dirent list) list" where
  "demo_dirs =
     [(js ''/data'', [fileE (js ''a.txt''), dirE (js ''sub''), dirE (js ''.git''),
                      dirE (js ''node_modules''), fileE (js ''notes.log''), fileE (js ''bad.txt''),
                      dirE (js ''l1''),
                      \<lparr>name = js ''link.txt'', isDirectory = False, isFile = False\<rparr>]),
      (js ''/data/sub'', [fileE (js ''b.md''), fileE (js ''e.eml'')]),
      (js ''/data/.git'', [fileE (js ''c.txt'')]),
      (js ''/data/node_modules'', [fileE (js ''d.txt'')]),
      (js ''/data/l1'', [dirE (js ''l2'')]),
      (js ''/data/l1/l2'', [dirE (js ''l3'')]),
      (js ''/data/l1/l2/l3'', [fileE (js ''f3.TXT''), dirE (js ''l4'')]),
      (js ''/data/l1/l2/l3/l4'', [fileE (js ''f4.txt'')]),
      (js ''/uni'', [fileE (js ''dotted.txt'')])]"

definition demo_utf8 :: "(jsstring \<times> jsstring) list" where
  "demo_utf8 =
     [(js ''/data/a.txt'', js ''hello world''),
      (js ''/data/sub/b.md'', js ''nothing relevant''),
      (js ''/data/.git/c.txt'', js ''hello world''),
      (js ''/data/node_modules/d.txt'', js ''hello world''),
      (js ''/data/notes.log'', js ''hello world''),
      (js ''/data/link.txt'', js ''hello world''),
      (js ''/data/l1/l2/l3/f3.TXT'',
         js ''Hello World'' @ [ascii (CHR 0x0A)] @ js ''  second world  '' @ [ascii (CHR 0x0A)]
           @ js ''third'' @ [ascii (CHR 0x0A)] @ js ''WORLD four'' @ [ascii (CHR 0x0A)]
           @ js ''world five''),
      (js ''/data/l1/l2/l3/l4/f4.txt'', js ''hello world''),
      (js ''/uni/dotted.txt'', [capital_I_dotted])]"

definition demo_latin1 :: "(jsstring \<times> jsstring) list" where
  "demo_latin1 = [(js ''/data/sub/e.eml'', js ''old world mail'')]"

definition demo_env :: env where
  "demo_env =
     \<lparr>str_toLowerCase = js_toLowerCase,
      max_call_args = 125000,
      path_resolve = (\<lambda>p. Inr (if p = js ''.'' then js ''/data'' else p)),
      path_join = posix_join,
      fs_readdir = lookup demo_dirs,
      fs_readFile = (\<lambda>p enc. case enc of
                        Utf8 \<Rightarrow> (case map_of demo_utf8 p of None \<Rightarrow> Inl DecodeError | Some c \<Rightarrow> Inr c)
                      | Latin1 \<Rightarrow> (case map_of demo_latin1 p of None \<Rightarrow> Inl DecodeError | Some c \<Rightarrow> Inr c)),
      fs_stat = (\<lambda>p. Inr \<lparr>st_size = length p, st_mtime = 7\<rparr>)\<rparr>"

definition demo_server :: server where
  "demo_server =
     \<lparr>this_searchLocations = [js ''.''],
      this_emailFileTypes = [js ''.eml'', js ''.msg'', js ''.mbox'', js ''.txt'', js ''.md'',
                             js ''.docx'', js ''.pdf'', js ''.csv'', js ''.json'', js ''.xml'']\<rparr>"

definition big_entries :: "dirent list" where
  "big_entries = map (\<lambda>i. fileE (js ''f'' @ [ascii (char_of (48 + i))] @ js ''.t'')) [0..<51]"

definition big_env :: env where
  "big_env =
     \<lparr>str_toLowerCase = js_toLowerCase,
      max_call_args = 125000,
      path_resolve = Inr,
      path_join = posix_join,
      fs_readdir = (\<lambda>p. if p = js ''/big'' then Inr big_entries else Inl NotFound),
      fs_readFile = (\<lambda>p enc. Inr (js ''x'')),
      fs_stat = (\<lambda>p. Inr \<lparr>st_size = 1, st_mtime = 0\<rparr>)\<rparr>"

definition wide_entries :: "nat \<Rightarrow> dirent list" where
  "wide_entries n = map (\<lambda>i. fileE (js ''f'' @ replicate i (ascii (CHR ''x'')) @ js ''.txt'')) [0..<n]"

definition wide_env :: "nat \<Rightarrow> env" where
  "wide_env n =
     \<lparr>str_toLowerCase = js_toLowerCase,
      max_call_args = 125000,
      path_resolve = Inr,
      path_join = posix_join,
      fs_readdir = (\<lambda>p. if p = js ''/wide'' then Inr (wide_entries n) else Inl NotFound),
      fs_readFile = (\<lambda>p enc. Inr (js ''x'')),
      fs_stat = (\<lambda>p. Inr \<lparr>st_size = 1, st_mtime = 0\<rparr>)\<rparr>"

section \<open>The walker as a concatenation\<close>

declare searchRecursive.simps [simp del]

lemma searchRecursive_loop:
  "searchRecursive e dir q ft rs d m =
     (if d > m then rs
      else (case fs_readdir e dir of
              Inl err \<Rightarrow> rs
            | Inr items \<Rightarrow> fold (visitItem e dir q ft d m) items rs))"
  unfolding visitItem_def [abs_def] by (rule searchRecursive.simps)

lemma fold_append_concat:
  "(\<And>x acc. x \<in> set xs \<Longrightarrow> f x acc = acc @ g x) \<Longrightarrow> fold f xs acc = acc @ concat (map g xs)"
  by (induction xs arbitrary: acc) simp_all

lemma searchRecursive_append:
  "searchRecursive e dir q ft rs d m = rs @ searchRecursive e dir q ft [] d m"
proof (induction "Suc m - d" arbitrary: dir rs d)
  case 0
  then have "d > m" by simp
  then show ?case by (simp add: searchRecursive_loop)
next
  case (Suc n)
  then have le: "d \<le> m" and n: "n = Suc m - Suc d" by simp_all
  have step: "visitItem e dir q ft d m item acc = acc @ visitItem e dir q ft d m item []"
    for item acc
    using Suc.hyps(1) [OF n, of "path_join e dir (name item)" acc]
    by (simp add: visitItem_def Let_def split: read_result.splits)
  show ?case
  proof (cases "fs_readdir e dir")
    case (Inl err)
    then show ?thesis by (simp add: searchRecursive_loop)
  next
    case (Inr items)
    have "fold (visitItem e dir q ft d m) items acc
            = acc @ concat (map (\<lambda>item. visitItem e dir q ft d m item []) items)" for acc
      by (rule fold_append_concat) (rule step)
    from this [of rs] this [of "[]"] Inr le show ?thesis
      by (simp add: searchRecursive_loop)
  qed
qed

lemma visitItem_append:
  "visitItem e dir q ft d m item acc = acc @ visitItem e dir q ft d m item []"
  using searchRecursive_append [of e "path_join e dir (name item)" q ft acc "d + 1" m]
  by (simp add: visitItem_def Let_def split: read_result.splits)

lemma searchRecursive_concat:
  "searchRecursive e dir q ft [] d m =
     (if d > m then []
      else (case fs_readdir e dir of
              Inl err \<Rightarrow> []
            | Inr items \<Rightarrow> concat (map (\<lambda>item. visitItem e dir q ft d m item []) items)))"
proof -
  have "fold (visitItem e dir q ft d m) items [] 
          = [] @ concat (map (\<lambda>item. visitItem e dir q ft d m item []) items)" for items
    by (rule fold_append_concat) (rule visitItem_append)
  then show ?thesis
    by (simp add: searchRecursive_loop split: sum.splits)
qed

section \<open>What the walk finds\<close>

lemma descends_append:
  "descends e dir (ds @ es) = (descends e dir ds \<and> descends e (foldl (path_join e) dir ds) es)"
  by (induction ds arbitrary: dir) auto

lemma visitItem_file:
  "\<not> isDirectory item \<Longrightarrow>
   visitItem e dir q ft d m item rs =
     (if skipped (name item) \<or> \<not> isFile item \<or> str_toLowerCase e (extname (name item)) \<notin> set ft then rs
      else (case readFile e (path_join e dir (name item)) of
              ReadOk content meta \<Rightarrow>
                if includes_s (str_toLowerCase e content) (str_toLowerCase e q)
                then rs @ [\<lparr>file_m = path_join e dir (name item),
                            type_m = str_toLowerCase e (extname (name item)), size_m = md_size meta,
                            modified_m = md_modified meta,
                            preview_m = getContentPreview e content q\<rparr>]
                else rs
            | ReadFailed err \<Rightarrow> rs))"
  by (simp add: visitItem_def Let_def skipped_def)

lemma visitItem_dir:
  "isDirectory item \<Longrightarrow>
   visitItem e dir q ft d m item rs =
     (if skipped (name item) then rs
      else searchRecursive e (path_join e dir (name item)) q ft rs (Suc d) m)"
  by (simp add: visitItem_def Let_def skipped_def)

lemma visit_file_sound:
  assumes "r \<in> set (visitItem e dir q ft d m item [])" "\<not> isDirectory item"
  shows "\<not> skipped (name item) \<and> isFile item \<and> file_m r = path_join e dir (name item)
     \<and> type_m r = str_toLowerCase e (extname (name item)) \<and> type_m r \<in> set ft
     \<and> (\<exists>content meta. readFile e (path_join e dir (name item)) = ReadOk content meta
           \<and> includes_s (str_toLowerCase e content) (str_toLowerCase e q)
           \<and> size_m r = md_size meta \<and> modified_m r = md_modified meta
           \<and> preview_m r = getContentPreview e content q)"
proof (cases "readFile e (path_join e dir (name item))")
  case (ReadOk content meta)
  with assms show ?thesis
    by (simp add: visitItem_file split: if_split_asm)
next
  case (ReadFailed err)
  with assms show ?thesis
    by (simp add: visitItem_file split: if_split_asm)
qed


lemma walk_sound:
  "r \<in> set (searchRecursive e dir q ft [] d m) \<Longrightarrow>
     \<exists>ds f. d \<le> m \<and> length ds \<le> m - d \<and> descends e dir ds
        \<and> lists_file e (foldl (path_join e) dir ds) f
        \<and> file_m r = path_join e (foldl (path_join e) dir ds) f
        \<and> type_m r = str_toLowerCase e (extname f) \<and> type_m r \<in> set ft
        \<and> (\<exists>content meta. readFile e (file_m r) = ReadOk content meta
           \<and> includes_s (str_toLowerCase e content) (str_toLowerCase e q)
           \<and> size_m r = md_size meta \<and> modified_m r = md_modified meta
           \<and> preview_m r = getContentPreview e content q)"
proof (induction "Suc m - d" arbitrary: dir d)
  case 0
  then have "d > m" by simp
  with 0 show ?case by (simp add: searchRecursive_concat)
next
  case (Suc n)
  then have le: "d \<le> m" and n: "n = Suc m - Suc d" by simp_all
  from Suc.prems le have "\<exists>items item. fs_readdir e dir = Inr items \<and> item \<in> set items
      \<and> r \<in> set (visitItem e dir q ft d m item [])"
    by (cases "fs_readdir e dir") (auto simp: searchRecursive_concat)
  then obtain items item where
    rd: "fs_readdir e dir = Inr items" and it: "item \<in> set items"
    and r: "r \<in> set (visitItem e dir q ft d m item [])"
    by blast
  show ?case
  proof (cases "isDirectory item")
    case False
    from visit_file_sound [OF r False] rd it False le
    have "d \<le> m \<and> length ([]::jsstring list) \<le> m - d \<and> descends e dir []
        \<and> lists_file e (foldl (path_join e) dir []) (name item)
        \<and> file_m r = path_join e (foldl (path_join e) dir []) (name item)
        \<and> type_m r = str_toLowerCase e (extname (name item)) \<and> type_m r \<in> set ft
        \<and> (\<exists>content meta. readFile e (file_m r) = ReadOk content meta
           \<and> includes_s (str_toLowerCase e content) (str_toLowerCase e q)
           \<and> size_m r = md_size meta \<and> modified_m r = md_modified meta
           \<and> preview_m r = getContentPreview e content q)"
      by (auto simp: lists_file_def list_ex_iff)
    then show ?thesis by blast
  next
    case True
    with r have ns: "\<not> skipped (name item)"
      and r': "r \<in> set (searchRecursive e (path_join e dir (name item)) q ft [] (Suc d) m)"
      by (auto simp: visitItem_dir split: if_split_asm)
    from Suc.hyps(1) [OF n r'] obtain ds f where
      h: "Suc d \<le> m" "length ds \<le> m - Suc d" "descends e (path_join e dir (name item)) ds"
        "lists_file e (foldl (path_join e) (path_join e dir (name item)) ds) f"
        "file_m r = path_join e (foldl (path_join e) (path_join e dir (name item)) ds) f"
        "type_m r = str_toLowerCase e (extname f)" "type_m r \<in> set ft"
        "\<exists>content meta. readFile e (file_m r) = ReadOk content meta
           \<and> includes_s (str_toLowerCase e content) (str_toLowerCase e q)
           \<and> size_m r = md_size meta \<and> modified_m r = md_modified meta
           \<and> preview_m r = getContentPreview e content q"
      by blast
    from h(1,2) have "length (name item # ds) \<le> m - d" by simp
    moreover from h(3) rd it True ns have "descends e dir (name item # ds)"
      by (auto simp: list_ex_iff)
    ultimately show ?thesis using h(4-8) le
      by (intro exI [of _ "name item # ds"] exI [of _ f]) simp
  qed
qed

text \<open>Conversely, what the walk can get to and accepts is among its results.\<close>

lemma walk_complete:
  assumes "descends e dir ds" "d + length ds \<le> m"
    and "fs_readdir e (foldl (path_join e) dir ds) = Inr items" "item \<in> set items"
    and "r \<in> set (visitItem e (foldl (path_join e) dir ds) q ft (d + length ds) m item [])"
  shows "r \<in> set (searchRecursive e dir q ft [] d m)"
  using assms
proof (induction ds arbitrary: dir d)
  case Nil
  then show ?case
    by (auto simp: searchRecursive_concat)
next
  case (Cons n ds)
  from Cons.prems(1) obtain its it where
    rd: "fs_readdir e dir = Inr its" and it: "it \<in> set its" "name it = n" "isDirectory it"
    and ns: "\<not> skipped n" and rest: "descends e (path_join e dir n) ds"
    by (cases "fs_readdir e dir") (auto simp: list_ex_iff)
  from Cons.prems(2) have le: "Suc d + length ds \<le> m" by simp
  from Cons.prems(3-5) have
    "r \<in> set (searchRecursive e (path_join e dir n) q ft [] (Suc d) m)"
    by (intro Cons.IH [OF rest le]) simp_all
  with it ns have "r \<in> set (visitItem e dir q ft d m it [])"
    by (simp add: visitItem_dir)
  with rd it(1) le show ?case
    by (auto simp: searchRecursive_concat)
qed

text \<open>A file entry of the directory walked: its record is found exactly when the
  lower-cased content includes the lower-cased query.\<close>

lemma file_found_iff:
  assumes "fs_readdir e dir = Inr items" "item \<in> set items"
    and "\<not> skipped (name item)" "\<not> isDirectory item" "isFile item"
    and "str_toLowerCase e (extname (name item)) \<in> set ft"
    and "readFile e (path_join e dir (name item)) = ReadOk content meta"
    and "d \<le> m"
  shows "\<lparr>file_m = path_join e dir (name item),
           type_m = str_toLowerCase e (extname (name item)), size_m = md_size meta,
           modified_m = md_modified meta, preview_m = getContentPreview e content q\<rparr>
           \<in> set (searchRecursive e dir q ft [] d m)
         \<longleftrightarrow> includes_s (str_toLowerCase e content) (str_toLowerCase e q)"
    (is "?r \<in> _ \<longleftrightarrow> ?inc")
proof
  assume "?r \<in> set (searchRecursive e dir q ft [] d m)"
  from walk_sound [OF this] obtain c mt where
    "readFile e (file_m ?r) = ReadOk c mt"
    "includes_s (str_toLowerCase e c) (str_toLowerCase e q)"
    by blast
  with assms(7) show ?inc by simp
next
  assume ?inc
  with assms(3-7) have "visitItem e dir q ft d m item [] = [?r]"
    by (simp add: visitItem_file)
  then have "?r \<in> set (visitItem e (foldl (path_join e) dir []) q ft (d + length ([]::jsstring list)) m item [])"
    by simp
  moreover have "descends e dir []" by simp
  moreover from assms(8) have "d + length ([]::jsstring list) \<le> m" by simp
  moreover from assms(1) have "fs_readdir e (foldl (path_join e) dir []) = Inr items" by simp
  ultimately show "?r \<in> set (searchRecursive e dir q ft [] d m)"
    using assms(2) by (intro walk_complete [where ds = "[]" and items = items and item = item])
qed

lemma file_path_found_iff:
  assumes "fs_readdir e dir = Inr items" "item \<in> set items"
    and "\<not> skipped (name item)" "\<not> isDirectory item" "isFile item"
    and "str_toLowerCase e (extname (name item)) \<in> set ft"
    and "readFile e (path_join e dir (name item)) = ReadOk content meta"
    and "d \<le> m"
  shows "(\<exists>r \<in> set (searchRecursive e dir q ft [] d m). file_m r = path_join e dir (name item))
         \<longleftrightarrow> includes_s (str_toLowerCase e content) (str_toLowerCase e q)"
proof
  assume "\<exists>r \<in> set (searchRecursive e dir q ft [] d m). file_m r = path_join e dir (name item)"
  then obtain r where r: "r \<in> set (searchRecursive e dir q ft [] d m)"
    and p: "file_m r = path_join e dir (name item)"
    by blast
  from walk_sound [OF r] obtain c mt where
    "readFile e (file_m r) = ReadOk c mt"
    "includes_s (str_toLowerCase e c) (str_toLowerCase e q)"
    by blast
  with assms(7) p show "includes_s (str_toLowerCase e content) (str_toLowerCase e q)" by simp
next
  assume "includes_s (str_toLowerCase e content) (str_toLowerCase e q)"
  with file_found_iff [OF assms, of q]
  have "\<lparr>file_m = path_join e dir (name item),
           type_m = str_toLowerCase e (extname (name item)), size_m = md_size meta,
           modified_m = md_modified meta, preview_m = getContentPreview e content q\<rparr>
           \<in> set (searchRecursive e dir q ft [] d m)"
    by simp
  then show "\<exists>r \<in> set (searchRecursive e dir q ft [] d m). file_m r = path_join e dir (name item)"
    by (rule rev_bexI) simp
qed

section \<open>The orchestrator\<close>

lemma fold_append_locations:
  "fold (\<lambda>location acc. acc @ g location) locs init = init @ concat (map g locs)"
  by (induction locs arbitrary: init) simp_all

lemma pushSpread_pushed:
  "(case pushSpread e acc xs of Inr acc' \<Rightarrow> acc' | Inl locationError \<Rightarrow> acc) = acc @ pushed e xs"
  by (simp add: pushSpread_def pushed_def)

lemma pushed_subset: "set (pushed e xs) \<subseteq> set xs"
  by (cases "int (length xs) \<le> max_call_args e") (simp_all add: pushed_def)

lemma pushed_fits: "int (length xs) \<le> max_call_args e \<Longrightarrow> pushed e xs = xs"
  by (simp add: pushed_def)

lemma pushed_Nil: "pushed e [] = []"
  by (simp add: pushed_def)

lemma searchFilesAdvanced_eq:
  "searchFilesAdvanced this e q cl ct =
     Success \<lparr>query = q, searchLocations = usedLocations this cl,
               totalResults = length (allFound e q (usedFileTypes this ct) (usedLocations this cl)),
               results = take 50 (allFound e q (usedFileTypes this ct) (usedLocations this cl))\<rparr>"
  unfolding searchFilesAdvanced_def pushSpread_pushed
  by (simp add: usedLocations_def usedFileTypes_def allFound_def fold_append_locations Let_def)

lemma allFound_append:
  "allFound e q ft (xs @ ys) = allFound e q ft xs @ allFound e q ft ys"
  by (simp add: allFound_def)

lemma allFound_Cons:
  "allFound e q ft (x # xs) = pushed e (searchInLocation e x q ft) @ allFound e q ft xs"
  by (simp add: allFound_def)

lemma searchInLocation_missing:
  assumes "path_resolve e bad = Inl err \<or> (\<exists>rp. path_resolve e bad = Inr rp \<and> fs_readdir e rp = Inl err)"
  shows "searchInLocation e bad q ft = []"
  using assms by (auto simp: searchInLocation_def searchRecursive_concat)

section \<open>Where a result comes from\<close>

lemma descends_not_skipped: "descends e dir ds \<Longrightarrow> n \<in> set ds \<Longrightarrow> \<not> skipped n"
  by (induction ds arbitrary: dir) auto

lemma lists_file_not_skipped: "lists_file e dir f \<Longrightarrow> \<not> skipped f"
  by (simp add: lists_file_def)

lemma found_origin:
  assumes "r \<in> set (allFound e q ft locs)"
  shows "\<exists>root \<in> set locs. \<exists>rp ds f. path_resolve e root = Inr rp \<and> length ds \<le> 3
           \<and> descends e rp ds \<and> lists_file e (foldl (path_join e) rp ds) f
           \<and> file_m r = path_join e (foldl (path_join e) rp ds) f
           \<and> type_m r = str_toLowerCase e (extname f) \<and> type_m r \<in> set ft"
proof -
  from assms obtain root where root: "root \<in> set locs"
    and "r \<in> set (pushed e (searchInLocation e root q ft))"
    by (auto simp: allFound_def)
  with pushed_subset have r: "r \<in> set (searchInLocation e root q ft)"
    by blast
  from r obtain rp where rp: "path_resolve e root = Inr rp"
    and w: "r \<in> set (searchRecursive e rp q ft [] 0 3)"
    by (cases "path_resolve e root") (auto simp: searchInLocation_def)
  from walk_sound [OF w] obtain ds f where
    "length ds \<le> 3" "descends e rp ds" "lists_file e (foldl (path_join e) rp ds) f"
    "file_m r = path_join e (foldl (path_join e) rp ds) f"
    "type_m r = str_toLowerCase e (extname f)" "type_m r \<in> set ft"
    by auto
  with root rp show ?thesis by blast
qed

lemma result_origin:
  assumes "searchFilesAdvanced this e q cl ct = Success res" "r \<in> set (results res)"
  shows "\<exists>root \<in> set (usedLocations this cl). \<exists>rp ds f. path_resolve e root = Inr rp \<and> length ds \<le> 3
           \<and> descends e rp ds \<and> lists_file e (foldl (path_join e) rp ds) f
           \<and> file_m r = path_join e (foldl (path_join e) rp ds) f
           \<and> type_m r = str_toLowerCase e (extname f) \<and> type_m r \<in> set (usedFileTypes this ct)"
proof -
  from assms have "r \<in> set (take 50 (allFound e q (usedFileTypes this ct) (usedLocations this cl)))"
    by (auto simp: searchFilesAdvanced_eq)
  then have "r \<in> set (allFound e q (usedFileTypes this ct) (usedLocations this cl))"
    by (rule in_set_takeD)
  then show ?thesis by (rule found_origin)
qed

lemma visitItem_skipped: "skipped (name item) \<Longrightarrow> visitItem e dir q ft d m item rs = rs"
  by (simp add: visitItem_def skipped_def)

lemma searchRecursive_past_depth: "m < d \<Longrightarrow> searchRecursive e dir q ft rs d m = rs"
  by (simp add: searchRecursive_loop)

lemma visitItem_wrong_extension:
  "\<not> isDirectory item \<Longrightarrow> str_toLowerCase e (extname (name item)) \<notin> set ft \<Longrightarrow>
     visitItem e dir q ft d m item rs = rs"
  by (simp add: visitItem_file)

text \<open>Two searches of the small tree, evaluated.\<close>

lemma demo_world:
  "searchFilesAdvanced demo_server demo_env (js ''world'') (Some [js ''/data'']) (Some [js ''.txt'', js ''.md'', js ''.eml'']) =
   Success
  \<lparr>query = js ''world'', searchLocations = [js ''/data''], totalResults = 3,
     results =
       [\<lparr>file_m = js ''/data/a.txt'', type_m = js ''.txt'', size_m = 11,
           modified_m = 7,
           preview_m = [\<lparr>line = js ''hello world'', number = 1\<rparr>]\<rparr>,
        \<lparr>file_m = js ''/data/sub/e.eml'', type_m = js ''.eml'', size_m = 15,
           modified_m = 7,
           preview_m = [\<lparr>line = js ''old world mail'', number = 1\<rparr>]\<rparr>,
        \<lparr>file_m = js ''/data/l1/l2/l3/f3.TXT'', type_m = js ''.txt'', size_m = 21,
           modified_m = 7,
           preview_m =
             [\<lparr>line = js ''Hello World'', number = 1\<rparr>,
              \<lparr>line = js ''second world'', number = 2\<rparr>,
              \<lparr>line = js ''WORLD four'', number = 4\<rparr>]\<rparr>]\<rparr>"
  by code_simp

lemma demo_git:
  "searchFilesAdvanced demo_server demo_env (js ''world'') (Some [js ''/data/.git'', js ''/data/node_modules'']) (Some [js ''.txt'']) =
   Success
  \<lparr>query = js ''world'', searchLocations = [js ''/data/.git'', js ''/data/node_modules''], totalResults = 2,
     results =
       [\<lparr>file_m = js ''/data/.git/c.txt'', type_m = js ''.txt'', size_m = 16,
           modified_m = 7,
           preview_m = [\<lparr>line = js ''hello world'', number = 1\<rparr>]\<rparr>,
        \<lparr>file_m = js ''/data/node_modules/d.txt'', type_m = js ''.txt'', size_m = 24,
           modified_m = 7,
           preview_m = [\<lparr>line = js ''hello world'', number = 1\<rparr>]\<rparr>]\<rparr>"
  by code_simp

section \<open>Containment and the preview\<close>

lemma includes_s_sublist: "includes_s s q = sublist q s"
  by (induction s) (simp_all add: sublist_Cons_right)

lemma includes_s_iff: "includes_s s q \<longleftrightarrow> (\<exists>pre post. s = pre @ q @ post)"
  by (simp add: includes_s_sublist sublist_def)

lemma includes_s_Nil: "includes_s s []"
  by (simp add: includes_s_sublist)

lemma includes_s_refl: "includes_s s s"
  by (simp add: includes_s_sublist)

lemma includes_map:
  "includes_s (map f content) (map f q) \<longleftrightarrow>
     (\<exists>pre w post. content = pre @ w @ post \<and> map f w = map f q)"
proof
  assume "includes_s (map f content) (map f q)"
  then obtain a b where "map f content = a @ map f q @ b"
    by (auto simp: includes_s_iff)
  then have "\<exists>us vs. content = us @ vs \<and> a = map f us \<and> map f q @ b = map f vs"
    by (simp add: map_eq_append_conv)
  then obtain us vs where c: "content = us @ vs" and vs: "map f vs = map f q @ b"
    by auto
  from vs have "\<exists>w post. vs = w @ post \<and> map f q = map f w \<and> b = map f post"
    by (simp add: map_eq_append_conv)
  then obtain w post where "vs = w @ post" "map f w = map f q"
    by auto
  with c have "content = us @ w @ post \<and> map f w = map f q"
    by simp
  then show "\<exists>pre w post. content = pre @ w @ post \<and> map f w = map f q"
    by blast
next
  assume "\<exists>pre w post. content = pre @ w @ post \<and> map f w = map f q"
  then obtain pre w post where "content = pre @ w @ post" "map f w = map f q"
    by blast
  then have "map f content = map f pre @ map f q @ map f post"
    by simp
  then show "includes_s (map f content) (map f q)"
    unfolding includes_s_iff by blast
qed

lemma in_set_runs: "w \<in> set (runs s) \<longleftrightarrow> (\<exists>pre post. s = pre @ w @ post)"
proof -
  have "w \<in> set (runs s) \<longleftrightarrow> (\<exists>t. suffix t s \<and> prefix w t)"
    by (auto simp: runs_def in_set_suffixes in_set_prefixes)
  also have "\<dots> \<longleftrightarrow> sublist w s"
    by (simp add: sublist_altdef')
  finally show ?thesis by (simp add: sublist_def)
qed

lemma self_in_runs: "s \<in> set (runs s)"
  unfolding in_set_runs by (intro exI [of _ "[]"]) simp

lemma containsIgnoringCase_iff:
  "containsIgnoringCase e content q \<longleftrightarrow>
     (\<exists>pre w post. content = pre @ w @ post \<and> str_toLowerCase e w = str_toLowerCase e q)"
proof -
  have "containsIgnoringCase e content q
          \<longleftrightarrow> (\<exists>w. w \<in> set (runs content) \<and> str_toLowerCase e w = str_toLowerCase e q)"
    by (simp add: containsIgnoringCase_def list_ex_iff Bex_def)
  also have "\<dots> \<longleftrightarrow> (\<exists>w. (\<exists>pre post. content = pre @ w @ post)
                          \<and> str_toLowerCase e w = str_toLowerCase e q)"
    by (simp only: in_set_runs)
  also have "\<dots> \<longleftrightarrow> (\<exists>pre w post. content = pre @ w @ post
                          \<and> str_toLowerCase e w = str_toLowerCase e q)"
    by blast
  finally show ?thesis .
qed

text \<open>Where lower-casing maps the code units of the content's runs and of the query one
  by one, the test of the walker is containment up to case.\<close>

lemma includes_unitwise:
  assumes "\<forall>w \<in> set (runs content). str_toLowerCase e w = map f w"
    and "str_toLowerCase e q = map f q"
  shows "includes_s (str_toLowerCase e content) (str_toLowerCase e q)
           \<longleftrightarrow> containsIgnoringCase e content q"
proof -
  have c: "str_toLowerCase e content = map f content"
    using assms(1) self_in_runs by blast
  have "containsIgnoringCase e content q \<longleftrightarrow> (\<exists>w \<in> set (runs content). map f w = map f q)"
    unfolding containsIgnoringCase_def list_ex_iff using assms by auto
  also have "\<dots> \<longleftrightarrow> (\<exists>w. (\<exists>pre post. content = pre @ w @ post) \<and> map f w = map f q)"
    by (simp only: in_set_runs Bex_def)
  also have "\<dots> \<longleftrightarrow> (\<exists>pre w post. content = pre @ w @ post \<and> map f w = map f q)"
    by blast
  also have "\<dots> \<longleftrightarrow> includes_s (map f content) (map f q)"
    by (rule includes_map [symmetric])
  finally show ?thesis by (simp add: c assms(2))
qed

lemma zip_upt_map:
  "map (\<lambda>(l, index). \<lparr>line = trim l, number = index + 1\<rparr>) (zip ls [0..<length ls])
     = map (numberedLine ls) [0..<length ls]"
  by (rule nth_equalityI) (simp_all add: numberedLine_def)

lemma getContentPreview_indices:
  "getContentPreview e content q =
     map (numberedLine (split_lines content))
       (take 3 (filter (\<lambda>i. includes_s (str_toLowerCase e (trim (split_lines content ! i))) (str_toLowerCase e q))
                  [0..<length (split_lines content)]))"
  unfolding getContentPreview_def Let_def zip_upt_map
  by (simp add: filter_map take_map o_def numberedLine_def)

lemma take_closed_downwards:
  assumes "sorted_wrt (<) (ks :: nat list)" "j \<in> set (take k ks)" "i \<in> set ks" "i \<le> j"
  shows "i \<in> set (take k ks)"
proof (rule ccontr)
  assume "i \<notin> set (take k ks)"
  with assms(3) have "i \<in> set (drop k ks)"
    by (metis Un_iff append_take_drop_id set_append)
  moreover from assms(1) have "sorted_wrt (<) (take k ks @ drop k ks)" by simp
  then have "\<forall>x \<in> set (take k ks). \<forall>y \<in> set (drop k ks). x < y"
    unfolding sorted_wrt_append by blast
  ultimately have "j < i" using assms(2) by blast
  with assms(4) show False by simp
qed

lemma preview_props:
  fixes e content q
  defines "ls \<equiv> split_lines content" and "pv \<equiv> getContentPreview e content q"
  shows "length pv \<le> 3"
    and "\<forall>p \<in> set pv. 1 \<le> number p \<and> number p \<le> length ls
           \<and> line p = trim (ls ! (number p - 1))
           \<and> includes_s (str_toLowerCase e (line p)) (str_toLowerCase e q)"
    and "sorted_wrt (\<lambda>a b. number a < number b) pv"
    and "\<forall>i < length ls. includes_s (str_toLowerCase e (trim (ls ! i))) (str_toLowerCase e q)
           \<and> (length pv < 3 \<or> (\<exists>p \<in> set pv. i < number p))
           \<longrightarrow> \<lparr>line = trim (ls ! i), number = i + 1\<rparr> \<in> set pv"
proof -
  define ixs where "ixs = filter (\<lambda>i. includes_s (str_toLowerCase e (trim (ls ! i))) (str_toLowerCase e q)) [0..<length ls]"
  have pv: "pv = map (numberedLine ls) (take 3 ixs)"
    by (simp add: pv_def ls_def ixs_def getContentPreview_indices)
  have sorted: "sorted_wrt (<) ixs"
    by (simp add: ixs_def sorted_wrt_filter)
  have ixs: "i \<in> set ixs \<longleftrightarrow> i < length ls \<and> includes_s (str_toLowerCase e (trim (ls ! i))) (str_toLowerCase e q)" for i
    by (auto simp: ixs_def)
  show "length pv \<le> 3" by (simp add: pv)
  show "\<forall>p \<in> set pv. 1 \<le> number p \<and> number p \<le> length ls
           \<and> line p = trim (ls ! (number p - 1))
           \<and> includes_s (str_toLowerCase e (line p)) (str_toLowerCase e q)"
  proof
    fix p assume "p \<in> set pv"
    then obtain i where "i \<in> set (take 3 ixs)" "p = numberedLine ls i"
      by (auto simp: pv)
    moreover then have "i \<in> set ixs" by (auto dest: in_set_takeD)
    ultimately show "1 \<le> number p \<and> number p \<le> length ls
           \<and> line p = trim (ls ! (number p - 1))
           \<and> includes_s (str_toLowerCase e (line p)) (str_toLowerCase e q)"
      by (simp add: ixs numberedLine_def)
  qed
  from sorted have "sorted_wrt (<) (take 3 ixs)" by (rule sorted_wrt_take)
  then show "sorted_wrt (\<lambda>a b. number a < number b) pv"
    by (simp add: pv sorted_wrt_map numberedLine_def)
  show "\<forall>i < length ls. includes_s (str_toLowerCase e (trim (ls ! i))) (str_toLowerCase e q)
           \<and> (length pv < 3 \<or> (\<exists>p \<in> set pv. i < number p))
           \<longrightarrow> \<lparr>line = trim (ls ! i), number = i + 1\<rparr> \<in> set pv"
  proof (intro allI impI, elim conjE)
    fix i
    assume i: "i < length ls" "includes_s (str_toLowerCase e (trim (ls ! i))) (str_toLowerCase e q)"
      and c: "length pv < 3 \<or> (\<exists>p \<in> set pv. i < number p)"
    from i have ijs: "i \<in> set ixs" by (simp add: ixs)
    have "i \<in> set (take 3 ixs)"
      using c
    proof
      assume "length pv < 3"
      then have "take 3 ixs = ixs" by (simp add: pv)
      with ijs show ?thesis by simp
    next
      assume "\<exists>p \<in> set pv. i < number p"
      then obtain j where j: "j \<in> set (take 3 ixs)" "i < Suc j"
        by (auto simp: pv numberedLine_def)
      then have "i \<le> j" by simp
      with sorted j(1) ijs show ?thesis by (rule take_closed_downwards)
    qed
    then have "numberedLine ls i \<in> set pv" by (simp add: pv)
    then show "\<lparr>line = trim (ls ! i), number = i + 1\<rparr> \<in> set pv"
      by (simp add: numberedLine_def)
  qed
qed

section \<open>Reading a file\<close>






section \<open>The dispatch\<close>

lemma switch_on_executeTool:
  "switch_on t executeTool_cases =
     (if t = ''read_file'' then Some (0, snd (executeTool_cases ! 0))
      else if t = ''list_directory'' then Some (1, snd (executeTool_cases ! 1))
      else if t = ''search_files_advanced'' then Some (2, snd (executeTool_cases ! 2))
      else if t = ''get_system_info'' then Some (3, snd (executeTool_cases ! 3))
      else if t = ''analyze_email_patterns_advanced'' then Some (4, snd (executeTool_cases ! 4))
      else if t = ''search_outlook_emails'' then Some (5, snd (executeTool_cases ! 5))
      else if t = ''generate_ai_email'' then Some (6, snd (executeTool_cases ! 6))
      else None)"
  by (simp add: switch_on_def executeTool_cases_def enumerate_eq_zip eq_commute)


section \<open>The empty query\<close>

lemma getContentPreview_empty_query:
  "str_toLowerCase e [] = [] \<Longrightarrow>
   getContentPreview e content [] =
     map (numberedLine (split_lines content)) (take 3 [0..<length (split_lines content)])"
  by (simp add: getContentPreview_indices includes_s_Nil)

lemma found_complete:
  assumes "root \<in> set locs" "path_resolve e root = Inr rp"
    and "int (length (searchInLocation e root q ft)) \<le> max_call_args e"
    and "descends e rp ds" "length ds \<le> 3"
    and "fs_readdir e (foldl (path_join e) rp ds) = Inr items" "item \<in> set items"
    and "r \<in> set (visitItem e (foldl (path_join e) rp ds) q ft (length ds) 3 item [])"
  shows "r \<in> set (allFound e q ft locs)"
proof -
  from assms(4-8) have "r \<in> set (searchRecursive e rp q ft [] 0 3)"
    by (intro walk_complete [where ds = ds and items = items and item = item]) simp_all
  with assms(2) have "r \<in> set (searchInLocation e root q ft)"
    by (simp add: searchInLocation_def)
  with assms(3) have "r \<in> set (pushed e (searchInLocation e root q ft))"
    by (simp add: pushed_fits)
  with assms(1) show ?thesis by (auto simp: allFound_def)
qed

text \<open>Where the push of a root's matches does not overflow, the search of the empty
  query finds every file that the walk from the root reaches and that \<^verbatim>\<open>readFile\<close>
  reads, with a preview of its first up to 3 lines, trimmed and numbered from 1.\<close>

lemma empty_query_found:
  assumes "str_toLowerCase e [] = []"
    and "root \<in> set (usedLocations this cl)" "path_resolve e root = Inr rp"
    and "int (length (searchInLocation e root [] (usedFileTypes this ct))) \<le> max_call_args e"
    and "descends e rp ds" "length ds \<le> 3"
    and "lists_file e (foldl (path_join e) rp ds) f"
    and "str_toLowerCase e (extname f) \<in> set (usedFileTypes this ct)"
    and "readFile e (path_join e (foldl (path_join e) rp ds) f) = ReadOk content meta"
  shows "\<exists>res. searchFilesAdvanced this e [] cl ct = Success res
          \<and> results res = take 50 (allFound e [] (usedFileTypes this ct) (usedLocations this cl))
          \<and> totalResults res = length (allFound e [] (usedFileTypes this ct) (usedLocations this cl))
          \<and> \<lparr>file_m = path_join e (foldl (path_join e) rp ds) f,
              type_m = str_toLowerCase e (extname f), size_m = md_size meta,
              modified_m = md_modified meta,
              preview_m = map (numberedLine (split_lines content))
                            (take 3 [0..<length (split_lines content)])\<rparr>
             \<in> set (allFound e [] (usedFileTypes this ct) (usedLocations this cl))
          \<and> (totalResults res \<le> 50 \<longrightarrow>
              \<lparr>file_m = path_join e (foldl (path_join e) rp ds) f,
               type_m = str_toLowerCase e (extname f), size_m = md_size meta,
               modified_m = md_modified meta,
               preview_m = map (numberedLine (split_lines content))
                             (take 3 [0..<length (split_lines content)])\<rparr>
              \<in> set (results res))"
proof -
  let ?dir = "foldl (path_join e) rp ds"
  let ?r = "\<lparr>file_m = path_join e ?dir f,
              type_m = str_toLowerCase e (extname f), size_m = md_size meta,
              modified_m = md_modified meta,
              preview_m = map (numberedLine (split_lines content))
                            (take 3 [0..<length (split_lines content)])\<rparr>"
  let ?found = "allFound e [] (usedFileTypes this ct) (usedLocations this cl)"
  have inc: "includes_s (str_toLowerCase e content) (str_toLowerCase e [])"
    by (simp add: assms(1) includes_s_Nil)
  from assms(7) obtain items item where rd: "fs_readdir e ?dir = Inr items"
    and it: "item \<in> set items" "name item = f" "\<not> isDirectory item" "isFile item"
    and ns: "\<not> skipped f"
    by (cases "fs_readdir e ?dir") (auto simp: lists_file_def list_ex_iff)
  from it ns assms(8,9) inc
  have "visitItem e ?dir [] (usedFileTypes this ct) (length ds) 3 item [] = [?r]"
    by (simp add: visitItem_file getContentPreview_empty_query [OF assms(1)])
  then have "?r \<in> set (visitItem e ?dir [] (usedFileTypes this ct) (length ds) 3 item [])"
    by simp
  with assms(2-6) rd it(1) have mem: "?r \<in> set ?found"
    by (rule found_complete)
  show ?thesis using mem
    by (simp add: searchFilesAdvanced_eq)
qed

section \<open>Enumeration order\<close>













section \<open>A directory wider than a call\<close>

text \<open>The walk of \<^verbatim>\<open>/wide\<close> for the empty query finds each of its \<open>n\<close> files.\<close>

lemma fold_appends_one:
  assumes "\<And>x rs. x \<in> set xs \<Longrightarrow> \<exists>r. f x rs = rs @ [r]"
  shows "length (fold f xs rs) = length rs + length xs"
  using assms
proof (induction xs arbitrary: rs)
  case Nil
  then show ?case by simp
next
  case (Cons x xs)
  from Cons.prems [of x rs] obtain r where r: "f x rs = rs @ [r]" by auto
  have "length (fold f xs (f x rs)) = length (f x rs) + length xs"
    by (rule Cons.IH) (simp add: Cons.prems)
  with r show ?case by simp
qed

lemma extname_after_dot:
  assumes "ascii (CHR ''.'') \<notin> set rest" "pre \<noteq> []" "rest \<noteq> []"
  shows "extname (pre @ ascii (CHR ''.'') # rest) = ascii (CHR ''.'') # rest"
proof -
  let ?dot = "ascii (CHR ''.'')"
  have "takeWhile (\<lambda>c. c \<noteq> ?dot) (rev rest @ ?dot # rev pre) = rev rest"
    using assms(1) by (auto simp: takeWhile_tail)
  then have t: "rev (takeWhile (\<lambda>c. c \<noteq> ?dot) (rev (pre @ ?dot # rest))) = rest"
    by simp
  have "pre @ ?dot # rest \<noteq> js ''..''"
  proof
    assume "pre @ ?dot # rest = js ''..''"
    then have "length (pre @ ?dot # rest) = 2" by (simp add: js_def)
    with assms(2,3) show False by (cases pre; cases rest) simp_all
  qed
  with assms(2) show ?thesis
    unfolding extname_def Let_def t by simp
qed

lemma wide_name_extname:
  "extname (js ''f'' @ replicate i (ascii (CHR ''x'')) @ js ''.txt'') = js ''.txt''"
proof -
  have "extname ((js ''f'' @ replicate i (ascii (CHR ''x''))) @ ascii (CHR ''.'') # js ''txt'')
          = ascii (CHR ''.'') # js ''txt''"
    by (rule extname_after_dot) (simp_all add: js_def ascii_def)
  then show ?thesis by (simp add: js_def)
qed

lemma wide_name_not_skipped:
  "\<not> skipped (js ''f'' @ replicate i (ascii (CHR ''x'')) @ js ''.txt'')"
  by (simp add: skipped_def startsWith_def excludes_def js_def ascii_def)

lemma lower_txt: "js_toLowerCase (js ''.txt'') = js ''.txt''"
  by code_simp

lemma wide_visit:
  assumes "item \<in> set (wide_entries n)"
  shows "\<exists>r. visitItem (wide_env n) (js ''/wide'') [] [js ''.txt''] 0 3 item rs = rs @ [r]"
proof -
  from assms obtain i where
    item: "item = fileE (js ''f'' @ replicate i (ascii (CHR ''x'')) @ js ''.txt'')"
    by (auto simp: wide_entries_def)
  have lc: "str_toLowerCase (wide_env n) = js_toLowerCase"
    by (simp add: wide_env_def)
  have rf: "readFile (wide_env n) p =
      ReadOk (js ''x'') \<lparr>md_size = 1, md_modified = 0, md_path = p,
                          md_encoding = js ''auto-detected''\<rparr>" for p
    by (simp add: readFile_def wide_env_def)
  have "\<not> isDirectory item" "isFile item" "\<not> skipped (name item)"
    "str_toLowerCase (wide_env n) (extname (name item)) \<in> set [js ''.txt'']"
    by (simp_all add: item fileE_def wide_name_not_skipped wide_name_extname lc lower_txt)
  moreover have "includes_s (str_toLowerCase (wide_env n) (js ''x'')) (str_toLowerCase (wide_env n) [])"
    by (simp add: lc js_toLowerCase_def includes_s_Nil)
  ultimately show ?thesis
    by (simp add: visitItem_file rf)
qed

lemma wide_all_found:
  "length (searchInLocation (wide_env n) (js ''/wide'') [] [js ''.txt'']) = n"
proof -
  have "searchInLocation (wide_env n) (js ''/wide'') [] [js ''.txt'']
          = fold (visitItem (wide_env n) (js ''/wide'') [] [js ''.txt''] 0 3) (wide_entries n) []"
    by (simp add: searchInLocation_def searchRecursive_loop wide_env_def)
  also have "length \<dots> = length ([] :: match list) + length (wide_entries n)"
    by (rule fold_appends_one) (rule wide_visit)
  finally show ?thesis by (simp add: wide_entries_def)
qed

lemma wide_first_file:
  "0 < n \<Longrightarrow> lists_file (wide_env n) (js ''/wide'') (js ''f.txt'')"
proof -
  assume "0 < n"
  then have "(0::nat) \<in> set [0..<n]" by simp
  then have "fileE (js ''f'' @ replicate 0 (ascii (CHR ''x'')) @ js ''.txt'') \<in> set (wide_entries n)"
    unfolding wide_entries_def set_map by (rule imageI)
  then have mem: "fileE (js ''f.txt'') \<in> set (wide_entries n)"
    by (simp add: js_def)
  have "\<exists>item \<in> set (wide_entries n).
          name item = js ''f.txt'' \<and> \<not> isDirectory item \<and> isFile item"
    by (rule bexI [OF _ mem]) (simp add: fileE_def)
  moreover have "\<not> skipped (js ''f.txt'')"
    using wide_name_not_skipped [of 0] by (simp add: js_def)
  ultimately show ?thesis
    by (simp add: lists_file_def wide_env_def list_ex_iff)
qed

section \<open>The claims\<close>

text \<open>
  C1. For every query, every list of roots and every set of file types,
  \<^verbatim>\<open>searchFilesAdvanced\<close> returns successfully and its \<^verbatim>\<open>results\<close> hold at most 50
  records, however many files matched: they are the first 50 of the matches pushed
  for the roots in order (a root with more matches than a call takes arguments has
  none pushed), and \<^verbatim>\<open>totalResults\<close> is the number before the cut.
\<close>

theorem search_results_at_most_50:
  "\<exists>r. searchFilesAdvanced this e q cl ct = Success r
       \<and> length (results r) \<le> 50
       \<and> results r = take 50 (allFound e q (usedFileTypes this ct) (usedLocations this cl))
       \<and> totalResults r = length (allFound e q (usedFileTypes this ct) (usedLocations this cl))"
  by (simp add: searchFilesAdvanced_eq)

text \<open>The directory of 51 matching files: 51 found, 50 returned.\<close>

theorem search_results_at_most_50_witness:
  "length (results_of (searchFilesAdvanced demo_server big_env (js ''x'')
             (Some [js ''/big'']) (Some [js ''.t'']))) \<le> 50
   \<and> length (allFound big_env (js ''x'') [js ''.t''] [js ''/big'']) = 51"
proof -
  from search_results_at_most_50 [of demo_server big_env "js ''x''" "Some [js ''/big'']" "Some [js ''.t'']"]
  have "length (results_of (searchFilesAdvanced demo_server big_env (js ''x'')
             (Some [js ''/big'']) (Some [js ''.t'']))) \<le> 50"
    by (auto simp: results_of_def)
  moreover have "length (allFound big_env (js ''x'') [js ''.t''] [js ''/big'']) = 51"
    by code_simp
  ultimately show ?thesis by simp
qed


text \<open>
  C6. A root that does not exist (its \<^verbatim>\<open>readdir\<close> fails), or whose resolution fails,
  contributes no match; the call still returns successfully, reports the roots exactly
  as supplied, that root included, and the remaining roots are searched as if it were
  not there: the matches found are those pushed for the remaining roots in order.
\<close>

theorem missing_root_is_skipped:
  assumes "path_resolve e bad = Inl err
           \<or> (\<exists>rp. path_resolve e bad = Inr rp \<and> fs_readdir e rp = Inl err)"
  shows "searchInLocation e bad q (usedFileTypes this ct) = []
     \<and> searchFilesAdvanced this e q (Some (pre @ bad # post)) ct =
         Success \<lparr>query = q, searchLocations = pre @ bad # post,
                   totalResults = length (allFound e q (usedFileTypes this ct) (pre @ post)),
                   results = take 50 (allFound e q (usedFileTypes this ct) (pre @ post))\<rparr>"
  using searchInLocation_missing [OF assms, of q "usedFileTypes this ct"]
  by (simp add: searchFilesAdvanced_eq usedLocations_def allFound_append allFound_Cons pushed_Nil)

text \<open>The root \<^verbatim>\<open>/nowhere\<close> between two roots that exist.\<close>

theorem missing_root_is_skipped_witness:
  "fs_readdir demo_env (js ''/nowhere'') = Inl NotFound
   \<and> searchFilesAdvanced demo_server demo_env (js ''world'') (Some [js ''/data/sub'', js ''/nowhere'', js ''/data'']) None =
       Success \<lparr>query = js ''world'', searchLocations = [js ''/data/sub'', js ''/nowhere'', js ''/data''],
                 totalResults = 4,
                 results = take 50 (allFound demo_env (js ''world'') (this_emailFileTypes demo_server) [js ''/data/sub'', js ''/data''])\<rparr>
   \<and> map file_m (allFound demo_env (js ''world'') (this_emailFileTypes demo_server) [js ''/data/sub'', js ''/data''])
       = [js ''/data/sub/e.eml'', js ''/data/a.txt'', js ''/data/sub/e.eml'', js ''/data/l1/l2/l3/f3.TXT'']"
proof -
  have nf: "fs_readdir demo_env (js ''/nowhere'') = Inl NotFound" by code_simp
  have rs: "path_resolve demo_env (js ''/nowhere'') = Inr (js ''/nowhere'')" by code_simp
  have h: "path_resolve demo_env (js ''/nowhere'') = Inl NotFound
           \<or> (\<exists>rp. path_resolve demo_env (js ''/nowhere'') = Inr rp \<and> fs_readdir demo_env rp = Inl NotFound)"
    using nf rs by simp
  have fs: "map file_m (allFound demo_env (js ''world'') (this_emailFileTypes demo_server) [js ''/data/sub'', js ''/data''])
       = [js ''/data/sub/e.eml'', js ''/data/a.txt'', js ''/data/sub/e.eml'', js ''/data/l1/l2/l3/f3.TXT'']"
    by code_simp
  have "length (allFound demo_env (js ''world'') (this_emailFileTypes demo_server) [js ''/data/sub'', js ''/data'']) = 4"
    by code_simp
  with missing_root_is_skipped [OF h, of "js ''world''" demo_server None "[js ''/data/sub'']" "[js ''/data'']"] nf fs
  show ?thesis by (simp add: usedFileTypes_def)
qed

text \<open>
  C2, as stated, fails where one root lies beneath another: the depth is counted from
  the root a walk starts at, not from every root of the call. Searched from the roots
  \<^verbatim>\<open>/data\<close> and \<^verbatim>\<open>/data/l1\<close>, the file \<^verbatim>\<open>/data/l1/l2/l3/l4/f4.txt\<close> is returned (the walk
  from \<^verbatim>\<open>/data/l1\<close> finds it 3 directories down), and it lies 4 directories below the
  root \<^verbatim>\<open>/data\<close>.
\<close>

theorem nested_root_reaches_deeper:
  "map file_m (results_of (searchFilesAdvanced demo_server demo_env (js ''world'')
       (Some [js ''/data'', js ''/data/l1'']) (Some [js ''.txt''])))
     = [js ''/data/a.txt'', js ''/data/l1/l2/l3/f3.TXT'', js ''/data/l1/l2/l3/f3.TXT'',
        js ''/data/l1/l2/l3/l4/f4.txt'']
   \<and> path_resolve demo_env (js ''/data'') = Inr (js ''/data'')
   \<and> descends demo_env (js ''/data'') [js ''l1'', js ''l2'', js ''l3'', js ''l4'']
   \<and> foldl (path_join demo_env) (js ''/data'') [js ''l1'', js ''l2'', js ''l3'', js ''l4'']
        = js ''/data/l1/l2/l3/l4''
   \<and> lists_file demo_env (js ''/data/l1/l2/l3/l4'') (js ''f4.txt'')
   \<and> path_join demo_env (js ''/data/l1/l2/l3/l4'') (js ''f4.txt'') = js ''/data/l1/l2/l3/l4/f4.txt''"
  by code_simp

text \<open>
  C2, amended. The walk from a root never recurses past depth 3, counted from that
  root. Every record of the results was found from one of the roots searched, in a
  directory reached from that root's resolved path through at most 3 directory
  entries, one below the other; and a call of the walker at depth 4 with the limit 3
  returns what it was given without reading anything.
\<close>

theorem walk_depth_at_most_3:
  assumes "searchFilesAdvanced this e q cl ct = Success res" "r \<in> set (results res)"
  shows "(\<exists>root \<in> set (usedLocations this cl). \<exists>rp ds f.
            path_resolve e root = Inr rp \<and> length ds \<le> 3 \<and> descends e rp ds
            \<and> lists_file e (foldl (path_join e) rp ds) f
            \<and> file_m r = path_join e (foldl (path_join e) rp ds) f)
         \<and> searchRecursive e dir q ft rs 4 3 = rs"
proof -
  from result_origin [OF assms] have
    "\<exists>root \<in> set (usedLocations this cl). \<exists>rp ds f.
            path_resolve e root = Inr rp \<and> length ds \<le> 3 \<and> descends e rp ds
            \<and> lists_file e (foldl (path_join e) rp ds) f
            \<and> file_m r = path_join e (foldl (path_join e) rp ds) f"
    by blast
  then show ?thesis by (simp add: searchRecursive_past_depth)
qed

text \<open>The file three directories below \<^verbatim>\<open>/data\<close> is found; the one four below is a file
  entry of its directory and is not.\<close>

theorem walk_depth_at_most_3_witness:
  "map file_m (results_of (searchFilesAdvanced demo_server demo_env (js ''world'') (Some [js ''/data''])
       (Some [js ''.txt'', js ''.md'', js ''.eml''])))
     = [js ''/data/a.txt'', js ''/data/sub/e.eml'', js ''/data/l1/l2/l3/f3.TXT'']
   \<and> lists_file demo_env (js ''/data/l1/l2/l3/l4'') (js ''f4.txt'')
   \<and> (\<exists>root \<in> set [js ''/data'']. \<exists>rp ds f.
            path_resolve demo_env root = Inr rp \<and> length ds \<le> 3 \<and> descends demo_env rp ds
            \<and> lists_file demo_env (foldl (path_join demo_env) rp ds) f
            \<and> (js ''/data/l1/l2/l3/f3.TXT'') = path_join demo_env (foldl (path_join demo_env) rp ds) f)"
proof -
  let ?r = "\<lparr>file_m = js ''/data/l1/l2/l3/f3.TXT'', type_m = js ''.txt'', size_m = 21,
           modified_m = 7,
           preview_m =
             [\<lparr>line = js ''Hello World'', number = 1\<rparr>,
              \<lparr>line = js ''second world'', number = 2\<rparr>,
              \<lparr>line = js ''WORLD four'', number = 4\<rparr>]\<rparr>"
  have "lists_file demo_env (js ''/data/l1/l2/l3/l4'') (js ''f4.txt'')" by code_simp
  moreover from walk_depth_at_most_3 [OF demo_world, of ?r]
  have "\<exists>root \<in> set [js ''/data'']. \<exists>rp ds f.
            path_resolve demo_env root = Inr rp \<and> length ds \<le> 3 \<and> descends demo_env rp ds
            \<and> lists_file demo_env (foldl (path_join demo_env) rp ds) f
            \<and> (js ''/data/l1/l2/l3/f3.TXT'') = path_join demo_env (foldl (path_join demo_env) rp ds) f"
    by (simp add: usedLocations_def)
  ultimately show ?thesis by (simp add: demo_world results_of_def)
qed

text \<open>
  C4, as stated, fails: the test of the names is made on the entries that the walk
  enumerates, not on the root. The directory \<^verbatim>\<open>/data\<close> has the entries \<^verbatim>\<open>.git\<close> (hidden)
  and \<^verbatim>\<open>node_modules\<close> (excluded); searched as roots, the files beneath them are returned.
\<close>

theorem hidden_root_is_searched:
  "fs_readdir demo_env (js ''/data'') =
     Inr [fileE (js ''a.txt''), dirE (js ''sub''), dirE (js ''.git''), dirE (js ''node_modules''),
          fileE (js ''notes.log''), fileE (js ''bad.txt''), dirE (js ''l1''),
          \<lparr>name = js ''link.txt'', isDirectory = False, isFile = False\<rparr>]
   \<and> startsWith (js ''.git'') (js ''.'')
   \<and> (js ''node_modules'') \<in> set excludes
   \<and> path_join demo_env (js ''/data'') (js ''.git'') = js ''/data/.git''
   \<and> path_join demo_env (js ''/data'') (js ''node_modules'') = js ''/data/node_modules''
   \<and> map file_m (results_of (searchFilesAdvanced demo_server demo_env (js ''world'')
         (Some [js ''/data/.git'', js ''/data/node_modules'']) (Some [js ''.txt''])))
       = [js ''/data/.git/c.txt'', js ''/data/node_modules/d.txt'']"
proof -
  have "fs_readdir demo_env (js ''/data'') =
     Inr [fileE (js ''a.txt''), dirE (js ''sub''), dirE (js ''.git''), dirE (js ''node_modules''),
          fileE (js ''notes.log''), fileE (js ''bad.txt''), dirE (js ''l1''),
          \<lparr>name = js ''link.txt'', isDirectory = False, isFile = False\<rparr>]"
    by code_simp
  moreover have "startsWith (js ''.git'') (js ''.'')" by code_simp
  moreover have "(js ''node_modules'') \<in> set excludes" by code_simp
  moreover have "path_join demo_env (js ''/data'') (js ''.git'') = js ''/data/.git''" by code_simp
  moreover have "path_join demo_env (js ''/data'') (js ''node_modules'') = js ''/data/node_modules''" by code_simp
  ultimately show ?thesis by (simp add: demo_git results_of_def)
qed

text \<open>
  C4, amended. Every record of the results was found from one of the roots searched,
  through directory entries below that root's resolved path none of whose names, nor
  the file's own name, starts with a dot or is one of \<^verbatim>\<open>node_modules\<close>, \<^verbatim>\<open>vendor\<close>,
  \<^verbatim>\<open>venv\<close>, \<^verbatim>\<open>__pycache__\<close>; the loop leaves the results untouched at every entry with
  such a name, whatever its kind, extension or content. The root's own path is not
  tested.
\<close>

theorem skipped_names_below_root:
  assumes "searchFilesAdvanced this e q cl ct = Success res" "r \<in> set (results res)"
  shows "(\<exists>root \<in> set (usedLocations this cl). \<exists>rp ds f.
            path_resolve e root = Inr rp \<and> descends e rp ds
            \<and> lists_file e (foldl (path_join e) rp ds) f
            \<and> file_m r = path_join e (foldl (path_join e) rp ds) f
            \<and> (\<forall>n \<in> set (ds @ [f]). \<not> startsWith n (js ''.'') \<and> n \<notin> set excludes))
         \<and> (\<forall>item. startsWith (name item) (js ''.'') \<or> name item \<in> set excludes \<longrightarrow>
               visitItem e dir q ft d m item rs = rs)"
proof -
  from result_origin [OF assms] obtain root rp ds f where
    h: "root \<in> set (usedLocations this cl)" "path_resolve e root = Inr rp" "descends e rp ds"
       "lists_file e (foldl (path_join e) rp ds) f"
       "file_m r = path_join e (foldl (path_join e) rp ds) f"
    by blast
  from h(3,4) have "\<forall>n \<in> set (ds @ [f]). \<not> skipped n"
    by (auto dest: descends_not_skipped lists_file_not_skipped)
  then have "\<forall>n \<in> set (ds @ [f]). \<not> startsWith n (js ''.'') \<and> n \<notin> set excludes"
    by (simp add: skipped_def)
  with h have "\<exists>root \<in> set (usedLocations this cl). \<exists>rp ds f.
            path_resolve e root = Inr rp \<and> descends e rp ds
            \<and> lists_file e (foldl (path_join e) rp ds) f
            \<and> file_m r = path_join e (foldl (path_join e) rp ds) f
            \<and> (\<forall>n \<in> set (ds @ [f]). \<not> startsWith n (js ''.'') \<and> n \<notin> set excludes)"
    by blast
  moreover have "\<forall>item. startsWith (name item) (js ''.'') \<or> name item \<in> set excludes \<longrightarrow>
               visitItem e dir q ft d m item rs = rs"
    by (simp add: visitItem_skipped skipped_def)
  ultimately show ?thesis by blast
qed

text \<open>Searched from \<^verbatim>\<open>/data\<close>, the entries \<^verbatim>\<open>.git\<close> and \<^verbatim>\<open>node_modules\<close> yield nothing.\<close>

theorem skipped_names_below_root_witness:
  "(\<exists>root \<in> set [js ''/data/.git'', js ''/data/node_modules'']. \<exists>rp ds f.
            path_resolve demo_env root = Inr rp \<and> descends demo_env rp ds
            \<and> lists_file demo_env (foldl (path_join demo_env) rp ds) f
            \<and> (js ''/data/.git/c.txt'') = path_join demo_env (foldl (path_join demo_env) rp ds) f
            \<and> list_all (\<lambda>n. \<not> startsWith n (js ''.'') \<and> n \<notin> set excludes) (ds @ [f]))
   \<and> visitItem demo_env (js ''/data'') (js ''world'') [js ''.txt''] 0 3 (dirE (js ''.git'')) [] = []
   \<and> visitItem demo_env (js ''/data'') (js ''world'') [js ''.txt''] 0 3 (dirE (js ''node_modules'')) [] = []
   \<and> map file_m (searchInLocation demo_env (js ''/data'') (js ''world'') [js ''.txt'']) =
        [js ''/data/a.txt'', js ''/data/l1/l2/l3/f3.TXT'']"
proof -
  let ?r = "\<lparr>file_m = js ''/data/.git/c.txt'', type_m = js ''.txt'', size_m = 16,
           modified_m = 7,
           preview_m = [\<lparr>line = js ''hello world'', number = 1\<rparr>]\<rparr>"
  note t = skipped_names_below_root [OF demo_git, where r = ?r and dir = "js ''/data''"
      and ft = "[js ''.txt'']" and d = 0 and m = 3 and rs = "[]"]
  from t have "\<exists>root \<in> set [js ''/data/.git'', js ''/data/node_modules'']. \<exists>rp ds f.
            path_resolve demo_env root = Inr rp \<and> descends demo_env rp ds
            \<and> lists_file demo_env (foldl (path_join demo_env) rp ds) f
            \<and> (js ''/data/.git/c.txt'') = path_join demo_env (foldl (path_join demo_env) rp ds) f
            \<and> list_all (\<lambda>n. \<not> startsWith n (js ''.'') \<and> n \<notin> set excludes) (ds @ [f])"
    by (simp add: usedLocations_def list_all_iff)
  moreover from t have t2: "\<forall>item. startsWith (name item) (js ''.'') \<or> name item \<in> set excludes \<longrightarrow>
         visitItem demo_env (js ''/data'') (js ''world'') [js ''.txt''] 0 3 item [] = []"
    by simp
  have "startsWith (name (dirE (js ''.git''))) (js ''.'')" by code_simp
  with t2 have "visitItem demo_env (js ''/data'') (js ''world'') [js ''.txt''] 0 3 (dirE (js ''.git'')) [] = []"
    by blast
  moreover have "name (dirE (js ''node_modules'')) \<in> set excludes" by code_simp
  with t2 have "visitItem demo_env (js ''/data'') (js ''world'') [js ''.txt''] 0 3 (dirE (js ''node_modules'')) [] = []"
    by blast
  moreover have "map file_m (searchInLocation demo_env (js ''/data'') (js ''world'') [js ''.txt'']) =
        [js ''/data/a.txt'', js ''/data/l1/l2/l3/f3.TXT'']"
    by code_simp
  ultimately show ?thesis by blast
qed

text \<open>
  C5. A file whose lower-cased extension (with its dot) is not among the file types in
  use never appears: every record of the results comes from a file entry whose
  lower-cased extension is among them and is the record's type, and the loop leaves the
  results untouched at every non-directory entry whose lower-cased extension is not
  among them, whatever its content.
\<close>

theorem extension_not_allowed_never_found:
  assumes "searchFilesAdvanced this e q cl ct = Success res" "r \<in> set (results res)"
  shows "(\<exists>root \<in> set (usedLocations this cl). \<exists>rp ds f.
            path_resolve e root = Inr rp
            \<and> lists_file e (foldl (path_join e) rp ds) f
            \<and> file_m r = path_join e (foldl (path_join e) rp ds) f
            \<and> type_m r = str_toLowerCase e (extname f)
            \<and> str_toLowerCase e (extname f) \<in> set (usedFileTypes this ct))
         \<and> (\<forall>item. \<not> isDirectory item
               \<and> str_toLowerCase e (extname (name item)) \<notin> set (usedFileTypes this ct) \<longrightarrow>
               visitItem e dir q (usedFileTypes this ct) d m item rs = rs)"
proof -
  from result_origin [OF assms] have
    "\<exists>root \<in> set (usedLocations this cl). \<exists>rp ds f.
            path_resolve e root = Inr rp
            \<and> lists_file e (foldl (path_join e) rp ds) f
            \<and> file_m r = path_join e (foldl (path_join e) rp ds) f
            \<and> type_m r = str_toLowerCase e (extname f)
            \<and> str_toLowerCase e (extname f) \<in> set (usedFileTypes this ct)"
    by (metis (no_types, lifting))
  then show ?thesis by (simp add: visitItem_wrong_extension)
qed

text \<open>\<^verbatim>\<open>notes.log\<close> contains the query and is readable, and is not found.\<close>

theorem extension_not_allowed_never_found_witness:
  "(\<exists>root \<in> set [js ''/data'']. \<exists>rp ds f.
            path_resolve demo_env root = Inr rp
            \<and> lists_file demo_env (foldl (path_join demo_env) rp ds) f
            \<and> (js ''/data/l1/l2/l3/f3.TXT'') = path_join demo_env (foldl (path_join demo_env) rp ds) f
            \<and> (js ''.txt'') = str_toLowerCase demo_env (extname f)
            \<and> str_toLowerCase demo_env (extname f) \<in> set [js ''.txt'', js ''.md'', js ''.eml''])
   \<and> str_toLowerCase demo_env (extname (js ''notes.log'')) = js ''.log''
   \<and> readFile demo_env (js ''/data/notes.log'') =
        ReadOk (js ''hello world'') \<lparr>md_size = 15, md_modified = 7, md_path = js ''/data/notes.log'',
                                 md_encoding = js ''auto-detected''\<rparr>
   \<and> visitItem demo_env (js ''/data'') (js ''world'') [js ''.txt'', js ''.md'', js ''.eml''] 0 3 (fileE (js ''notes.log'')) [] = []"
proof -
  let ?r = "\<lparr>file_m = js ''/data/l1/l2/l3/f3.TXT'', type_m = js ''.txt'', size_m = 21,
           modified_m = 7,
           preview_m =
             [\<lparr>line = js ''Hello World'', number = 1\<rparr>,
              \<lparr>line = js ''second world'', number = 2\<rparr>,
              \<lparr>line = js ''WORLD four'', number = 4\<rparr>]\<rparr>"
  note t = extension_not_allowed_never_found [OF demo_world, where r = ?r and dir = "js ''/data''"
      and d = 0 and m = 3 and rs = "[]"]
  from t have "\<exists>root \<in> set [js ''/data'']. \<exists>rp ds f.
            path_resolve demo_env root = Inr rp
            \<and> lists_file demo_env (foldl (path_join demo_env) rp ds) f
            \<and> (js ''/data/l1/l2/l3/f3.TXT'') = path_join demo_env (foldl (path_join demo_env) rp ds) f
            \<and> (js ''.txt'') = str_toLowerCase demo_env (extname f)
            \<and> str_toLowerCase demo_env (extname f) \<in> set [js ''.txt'', js ''.md'', js ''.eml'']"
    by (simp add: usedLocations_def usedFileTypes_def)
  moreover have l: "str_toLowerCase demo_env (extname (js ''notes.log'')) = js ''.log''" by code_simp
  moreover have "readFile demo_env (js ''/data/notes.log'') =
        ReadOk (js ''hello world'') \<lparr>md_size = 15, md_modified = 7, md_path = js ''/data/notes.log'',
                                 md_encoding = js ''auto-detected''\<rparr>"
    by code_simp
  moreover from t have t2: "\<forall>item. \<not> isDirectory item
         \<and> str_toLowerCase demo_env (extname (name item)) \<notin> set [js ''.txt'', js ''.md'', js ''.eml''] \<longrightarrow>
         visitItem demo_env (js ''/data'') (js ''world'') [js ''.txt'', js ''.md'', js ''.eml''] 0 3 item [] = []"
    by (simp add: usedFileTypes_def)
  have "\<not> isDirectory (fileE (js ''notes.log''))
      \<and> str_toLowerCase demo_env (extname (name (fileE (js ''notes.log'')))) \<notin> set [js ''.txt'', js ''.md'', js ''.eml'']"
    by code_simp
  with t2 have "visitItem demo_env (js ''/data'') (js ''world'') [js ''.txt'', js ''.md'', js ''.eml''] 0 3 (fileE (js ''notes.log'')) [] = []"
    by blast
  ultimately show ?thesis by blast
qed

text \<open>
  C3, as stated, fails: the walker compares the lower-case forms of the content and of
  the query, and lower-casing can lengthen a text. The file \<^verbatim>\<open>/uni/dotted.txt\<close> holds the
  one letter \<^verbatim>\<open>U+0130\<close>, whose lower-case form is \<^verbatim>\<open>i\<close> followed by the combining dot
  \<^verbatim>\<open>U+0307\<close>. Searched for the query \<^verbatim>\<open>U+0307\<close> the file is reported as a match, and no
  run of its content equals the query up to case.
\<close>

theorem dotted_capital_matches_combining_dot:
  "readFile demo_env (js ''/uni/dotted.txt'') =
      ReadOk [capital_I_dotted] \<lparr>md_size = 15, md_modified = 7, md_path = js ''/uni/dotted.txt'',
                                  md_encoding = js ''auto-detected''\<rparr>
   \<and> str_toLowerCase demo_env [capital_I_dotted] = [ascii (CHR ''i''), combining_dot]
   \<and> str_toLowerCase demo_env [combining_dot] = [combining_dot]
   \<and> map file_m (results_of (searchFilesAdvanced demo_server demo_env [combining_dot]
        (Some [js ''/uni'']) (Some [js ''.txt'']))) = [js ''/uni/dotted.txt'']
   \<and> runs [capital_I_dotted] = [[], [], [capital_I_dotted]]
   \<and> \<not> containsIgnoringCase demo_env [capital_I_dotted] [combining_dot]"
  by code_simp

text \<open>
  C3, amended. A file that the walk of a directory comes to (a file entry of the
  directory, not skipped, with an allowed extension, that \<^verbatim>\<open>readFile\<close> reads) has its
  record, with the preview, among the results of the walk exactly when the lower-cased
  content includes the lower-cased query as a run of code units; and some record of the
  results has the file's path exactly then. Where lower-casing maps the code units of
  the content's runs and of the query one by one, that is exactly when some run of the
  content equals the query up to case. A query with the lower-case form of the whole
  content matches. The preview holds at most 3 pairs; each is a line of the content,
  trimmed, with its number counted from 1, and the lower-case form of its trimmed text
  includes that of the query; the pairs are in line order; and they are the first such
  lines: a matching line before a previewed one is previewed, and a preview of fewer
  than 3 pairs holds every matching line.
\<close>

theorem content_matcher:
  assumes "fs_readdir e dir = Inr items" "item \<in> set items"
    and "\<not> skipped (name item)" "\<not> isDirectory item" "isFile item"
    and "str_toLowerCase e (extname (name item)) \<in> set ft"
    and "readFile e (path_join e dir (name item)) = ReadOk content meta"
    and "d \<le> m"
  shows "(\<lparr>file_m = path_join e dir (name item),
            type_m = str_toLowerCase e (extname (name item)), size_m = md_size meta,
            modified_m = md_modified meta, preview_m = getContentPreview e content q\<rparr>
            \<in> set (searchRecursive e dir q ft [] d m)
          \<longleftrightarrow> includes_s (str_toLowerCase e content) (str_toLowerCase e q))
   \<and> ((\<exists>r \<in> set (searchRecursive e dir q ft [] d m). file_m r = path_join e dir (name item))
          \<longleftrightarrow> includes_s (str_toLowerCase e content) (str_toLowerCase e q))
   \<and> ((\<forall>w \<in> set (runs content). str_toLowerCase e w = map f w) \<and> str_toLowerCase e q = map f q
          \<longrightarrow> (includes_s (str_toLowerCase e content) (str_toLowerCase e q)
                 \<longleftrightarrow> containsIgnoringCase e content q))
   \<and> (str_toLowerCase e content = str_toLowerCase e q
          \<longrightarrow> includes_s (str_toLowerCase e content) (str_toLowerCase e q))
   \<and> length (getContentPreview e content q) \<le> 3
   \<and> (\<forall>p \<in> set (getContentPreview e content q).
          1 \<le> number p \<and> number p \<le> length (split_lines content)
          \<and> line p = trim (split_lines content ! (number p - 1))
          \<and> includes_s (str_toLowerCase e (line p)) (str_toLowerCase e q))
   \<and> sorted_wrt (\<lambda>a b. number a < number b) (getContentPreview e content q)
   \<and> (\<forall>i < length (split_lines content).
          includes_s (str_toLowerCase e (trim (split_lines content ! i))) (str_toLowerCase e q)
          \<and> (length (getContentPreview e content q) < 3
               \<or> (\<exists>p \<in> set (getContentPreview e content q). i < number p))
          \<longrightarrow> \<lparr>line = trim (split_lines content ! i), number = i + 1\<rparr>
                \<in> set (getContentPreview e content q))"
proof (intro conjI)
  show "\<lparr>file_m = path_join e dir (name item),
            type_m = str_toLowerCase e (extname (name item)), size_m = md_size meta,
            modified_m = md_modified meta, preview_m = getContentPreview e content q\<rparr>
            \<in> set (searchRecursive e dir q ft [] d m)
          \<longleftrightarrow> includes_s (str_toLowerCase e content) (str_toLowerCase e q)"
    using assms by (rule file_found_iff)
  show "(\<exists>r \<in> set (searchRecursive e dir q ft [] d m). file_m r = path_join e dir (name item))
          \<longleftrightarrow> includes_s (str_toLowerCase e content) (str_toLowerCase e q)"
    using assms by (rule file_path_found_iff)
  show "(\<forall>w \<in> set (runs content). str_toLowerCase e w = map f w) \<and> str_toLowerCase e q = map f q
          \<longrightarrow> (includes_s (str_toLowerCase e content) (str_toLowerCase e q)
                 \<longleftrightarrow> containsIgnoringCase e content q)"
  proof (intro impI, elim conjE)
    assume "\<forall>w \<in> set (runs content). str_toLowerCase e w = map f w"
      and "str_toLowerCase e q = map f q"
    then show "includes_s (str_toLowerCase e content) (str_toLowerCase e q)
                 \<longleftrightarrow> containsIgnoringCase e content q"
      by (rule includes_unitwise)
  qed
  show "str_toLowerCase e content = str_toLowerCase e q
          \<longrightarrow> includes_s (str_toLowerCase e content) (str_toLowerCase e q)"
    by (simp add: includes_s_refl)
  show "length (getContentPreview e content q) \<le> 3"
    by (rule preview_props)
  show "\<forall>p \<in> set (getContentPreview e content q).
          1 \<le> number p \<and> number p \<le> length (split_lines content)
          \<and> line p = trim (split_lines content ! (number p - 1))
          \<and> includes_s (str_toLowerCase e (line p)) (str_toLowerCase e q)"
    by (rule preview_props)
  show "sorted_wrt (\<lambda>a b. number a < number b) (getContentPreview e content q)"
    by (rule preview_props)
  show "\<forall>i < length (split_lines content).
          includes_s (str_toLowerCase e (trim (split_lines content ! i))) (str_toLowerCase e q)
          \<and> (length (getContentPreview e content q) < 3
               \<or> (\<exists>p \<in> set (getContentPreview e content q). i < number p))
          \<longrightarrow> \<lparr>line = trim (split_lines content ! i), number = i + 1\<rparr>
                \<in> set (getContentPreview e content q)"
    by (rule preview_props)
qed

text \<open>\<^verbatim>\<open>WORLD\<close> against the file \<^verbatim>\<open>/data/a.txt\<close>, which holds \<^verbatim>\<open>hello world\<close>: the
  record is found, and on this text lower-casing works unit by unit. The query
  \<^verbatim>\<open>word\<close> does not match.\<close>

theorem content_matcher_witness:
  "\<lparr>file_m = js ''/data/a.txt'', type_m = js ''.txt'', size_m = 11, modified_m = 7,
     preview_m = [\<lparr>line = js ''hello world'', number = 1\<rparr>]\<rparr>
     \<in> set (searchRecursive demo_env (js ''/data'') (js ''WORLD'') [js ''.txt''] [] 0 3)
   \<and> includes_s (str_toLowerCase demo_env (js ''hello world'')) (str_toLowerCase demo_env (js ''WORLD''))
   \<and> containsIgnoringCase demo_env (js ''hello world'') (js ''WORLD'')
   \<and> \<not> includes_s (str_toLowerCase demo_env (js ''hello world'')) (str_toLowerCase demo_env (js ''word''))
   \<and> map file_m (searchRecursive demo_env (js ''/data'') (js ''word'') [js ''.txt''] [] 0 3) = []"
proof -
  let ?items = "[fileE (js ''a.txt''), dirE (js ''sub''), dirE (js ''.git''), dirE (js ''node_modules''),
          fileE (js ''notes.log''), fileE (js ''bad.txt''), dirE (js ''l1''),
          \<lparr>name = js ''link.txt'', isDirectory = False, isFile = False\<rparr>]"
  let ?meta = "\<lparr>md_size = 11, md_modified = 7, md_path = js ''/data/a.txt'',
                 md_encoding = js ''auto-detected''\<rparr>"
  have 1: "fs_readdir demo_env (js ''/data'') = Inr ?items" by code_simp
  have 2: "fileE (js ''a.txt'') \<in> set ?items" by simp
  have 3: "\<not> skipped (name (fileE (js ''a.txt'')))" by code_simp
  have 4: "\<not> isDirectory (fileE (js ''a.txt''))" by code_simp
  have 5: "isFile (fileE (js ''a.txt''))" by code_simp
  have 6: "str_toLowerCase demo_env (extname (name (fileE (js ''a.txt'')))) \<in> set [js ''.txt'']"
    by code_simp
  have 7: "readFile demo_env (path_join demo_env (js ''/data'') (name (fileE (js ''a.txt''))))
             = ReadOk (js ''hello world'') ?meta"
    by code_simp
  have 8: "(0::nat) \<le> 3" by simp
  have inc: "includes_s (str_toLowerCase demo_env (js ''hello world''))
               (str_toLowerCase demo_env (js ''WORLD''))"
    by code_simp
  have u1: "\<forall>w \<in> set (runs (js ''hello world'')).
              str_toLowerCase demo_env w = map (\<lambda>u. hd (lowerUnit u)) w"
    by code_simp
  have u2: "str_toLowerCase demo_env (js ''WORLD'') = map (\<lambda>u. hd (lowerUnit u)) (js ''WORLD'')"
    by code_simp
  have rec: "\<lparr>file_m = path_join demo_env (js ''/data'') (name (fileE (js ''a.txt''))),
        type_m = str_toLowerCase demo_env (extname (name (fileE (js ''a.txt'')))),
        size_m = md_size ?meta, modified_m = md_modified ?meta,
        preview_m = getContentPreview demo_env (js ''hello world'') (js ''WORLD'')\<rparr>
      = \<lparr>file_m = js ''/data/a.txt'', type_m = js ''.txt'', size_m = 11, modified_m = 7,
         preview_m = [\<lparr>line = js ''hello world'', number = 1\<rparr>]\<rparr>"
    by code_simp
  note t = content_matcher [OF 1 2 3 4 5 6 7 8, where q = "js ''WORLD''"
      and f = "\<lambda>u. hd (lowerUnit u)"]
  from t [THEN conjunct1, THEN iffD2, OF inc]
  have a: "\<lparr>file_m = js ''/data/a.txt'', type_m = js ''.txt'', size_m = 11, modified_m = 7,
     preview_m = [\<lparr>line = js ''hello world'', number = 1\<rparr>]\<rparr>
     \<in> set (searchRecursive demo_env (js ''/data'') (js ''WORLD'') [js ''.txt''] [] 0 3)"
    unfolding rec .
  from t [THEN conjunct2, THEN conjunct2, THEN conjunct1, THEN mp, OF conjI [OF u1 u2],
      THEN iffD1, OF inc]
  have b: "containsIgnoringCase demo_env (js ''hello world'') (js ''WORLD'')" .
  have c: "\<not> includes_s (str_toLowerCase demo_env (js ''hello world''))
               (str_toLowerCase demo_env (js ''word''))"
    by code_simp
  have d: "map file_m (searchRecursive demo_env (js ''/data'') (js ''word'') [js ''.txt''] [] 0 3) = []"
    by code_simp
  from a inc b c d show ?thesis by (intro conjI)
qed



text \<open>
  C9. The \<^verbatim>\<open>switch\<close> of \<^verbatim>\<open>executeTool\<close> has two clauses labelled
  \<^verbatim>\<open>search_outlook_emails\<close>, the sixth and the eighth. On every platform and for all
  arguments the name is dispatched to \<^verbatim>\<open>searchOutlookEmails\<close>, the sixth clause; no tool
  name selects the eighth, whose branch for darwin would have called
  \<^verbatim>\<open>searchMacOSOutlook\<close>.
\<close>

theorem duplicate_case_unreachable:
  "fst (executeTool_cases ! 5) = ''search_outlook_emails''
   \<and> fst (executeTool_cases ! 7) = ''search_outlook_emails''
   \<and> executeTool p ''search_outlook_emails'' a = Call_searchOutlookEmails (args_contactName a)
   \<and> map_option fst (switch_on toolName executeTool_cases) \<noteq> Some 7
   \<and> snd (executeTool_cases ! 7) Darwin a = Call_searchMacOSOutlook (args_contactName a)
   \<and> executeTool Darwin ''search_outlook_emails'' a \<noteq> snd (executeTool_cases ! 7) Darwin a"
proof -
  have "fst (executeTool_cases ! 5) = ''search_outlook_emails''"
    and "fst (executeTool_cases ! 7) = ''search_outlook_emails''"
    and k: "snd (executeTool_cases ! 5) p a = Call_searchOutlookEmails (args_contactName a)"
    and "snd (executeTool_cases ! 7) Darwin a = Call_searchMacOSOutlook (args_contactName a)"
    for p
    by (simp_all add: executeTool_cases_def)
  moreover have e: "executeTool p ''search_outlook_emails'' a = Call_searchOutlookEmails (args_contactName a)"
    for p
    by (simp add: executeTool_def switch_on_executeTool k)
  moreover have "map_option fst (switch_on toolName executeTool_cases) \<noteq> Some 7"
    by (simp add: switch_on_executeTool)
  ultimately show ?thesis by (simp add: e)
qed

text \<open>On darwin, with a contact name.\<close>

theorem duplicate_case_unreachable_witness:
  "executeTool Darwin ''search_outlook_emails''
     \<lparr>args_path = None, args_query = None, args_locations = None, args_fileTypes = None,
      args_contactName = Some ''alice'', args_recipient = None, args_context = None,
      args_prompt = None\<rparr> = Call_searchOutlookEmails (Some ''alice'')"
  using duplicate_case_unreachable [of Darwin "\<lparr>args_path = None, args_query = None,
      args_locations = None, args_fileTypes = None, args_contactName = Some ''alice'',
      args_recipient = None, args_context = None, args_prompt = None\<rparr>"]
  by simp

text \<open>
  C10. For the empty query every string matches, and the walk of a root finds every
  readable file with an allowed extension within the depth bound
  (\<open>empty_query_found\<close>). The matches of a root reach the results through
  \<^verbatim>\<open>results.push(...locationResults)\<close>, which throws when a root has more matches than a
  call takes arguments; the \<^verbatim>\<open>catch\<close> around it then drops all of them. The directory
  \<^verbatim>\<open>/wide\<close> holds 140000 readable \<^verbatim>\<open>.txt\<close> files and a call takes at most 125000
  arguments: the walk finds all 140000, and the search of the empty query returns no
  record at all, where the claim has 50 of them returned.
\<close>

theorem empty_query_wide_root_returns_nothing:
  "max_call_args (wide_env 140000) = 125000
   \<and> lists_file (wide_env 140000) (js ''/wide'') (js ''f.txt'')
   \<and> str_toLowerCase (wide_env 140000) (extname (js ''f.txt'')) = js ''.txt''
   \<and> readFile (wide_env 140000) (path_join (wide_env 140000) (js ''/wide'') (js ''f.txt'')) =
        ReadOk (js ''x'') \<lparr>md_size = 1, md_modified = 0, md_path = js ''/wide/f.txt'',
                            md_encoding = js ''auto-detected''\<rparr>
   \<and> length (searchInLocation (wide_env 140000) (js ''/wide'') [] [js ''.txt'']) = 140000
   \<and> searchFilesAdvanced demo_server (wide_env 140000) [] (Some [js ''/wide'']) (Some [js ''.txt''])
       = Success \<lparr>query = [], searchLocations = [js ''/wide''], totalResults = 0, results = []\<rparr>"
proof (intro conjI)
  show "max_call_args (wide_env 140000) = 125000"
    by (simp add: wide_env_def)
  show "lists_file (wide_env 140000) (js ''/wide'') (js ''f.txt'')"
    by (rule wide_first_file) simp
  show "str_toLowerCase (wide_env 140000) (extname (js ''f.txt'')) = js ''.txt''"
    using wide_name_extname [of 0] lower_txt by (simp add: wide_env_def js_def)
  show "readFile (wide_env 140000) (path_join (wide_env 140000) (js ''/wide'') (js ''f.txt'')) =
        ReadOk (js ''x'') \<lparr>md_size = 1, md_modified = 0, md_path = js ''/wide/f.txt'',
                            md_encoding = js ''auto-detected''\<rparr>"
    by (simp add: readFile_def wide_env_def posix_join_def js_def)
  show len: "length (searchInLocation (wide_env 140000) (js ''/wide'') [] [js ''.txt'']) = 140000"
    by (rule wide_all_found)
  have "pushed (wide_env 140000) (searchInLocation (wide_env 140000) (js ''/wide'') [] [js ''.txt'']) = []"
    unfolding pushed_def len by (simp add: wide_env_def)
  then show "searchFilesAdvanced demo_server (wide_env 140000) [] (Some [js ''/wide'']) (Some [js ''.txt''])
       = Success \<lparr>query = [], searchLocations = [js ''/wide''], totalResults = 0, results = []\<rparr>"
    by (simp add: searchFilesAdvanced_eq usedLocations_def usedFileTypes_def allFound_def)
qed

text \<open>The response holds no record, and the files found were more than a call takes.\<close>

theorem empty_query_wide_root_returns_nothing_witness:
  "results_of (searchFilesAdvanced demo_server (wide_env 140000) []
       (Some [js ''/wide'']) (Some [js ''.txt''])) = []
   \<and> max_call_args (wide_env 140000)
         < int (length (searchInLocation (wide_env 140000) (js ''/wide'') [] [js ''.txt'']))"
  using empty_query_wide_root_returns_nothing by (simp add: results_of_def)



end
